theory Spec2Isabelle
  imports Complex_Main "HOL-Library.Sublist"
begin

section \<open>The C library functions used by memory.c\<close>

text \<open>
  The program reads text files below \<open>/proc\<close> with the C library. Bytes are
  \<^typ>\<open>char\<close>, a buffer is a \<^typ>\<open>string\<close> that may hold NUL bytes, and the C
  string stored in a buffer is the part before its first NUL byte.

  Four things the program can do have no defined behaviour in C: \<open>%s\<close> writing a
  token of 64 bytes or more into \<open>key[64]\<close>, \<open>%ld\<close> reading an integer that does
  not fit a \<open>long\<close>, \<open>atoi\<close> reading one that does not fit an \<open>int\<close>, and reading
  \<open>entry->d_name\<close> after \<open>closedir\<close> has released the directory stream that holds
  the entry. Each is a value of \<open>fault\<close>, and every function that can reach one
  returns \<open>fault + result\<close>. A \<open>long\<close> has 64 bits and an \<open>int\<close> 32, as on every
  64-bit Linux.
\<close>

datatype fault = KeyOverflow | ValueOverflow | PidOverflow | ReleasedName

definition NUL :: char where
  "NUL = CHR 0x00"

definition NL :: char where
  "NL = CHR 0x0A"

definition cstr :: "string \<Rightarrow> string" where
  "cstr buf = takeWhile (\<lambda>c. c \<noteq> NUL) buf"

definition isspace :: "char \<Rightarrow> bool" where
  "isspace c = (c \<in> set [CHR '' '', CHR 0x09, CHR 0x0A, CHR 0x0B, CHR 0x0C, CHR 0x0D])"

definition isdigit :: "char \<Rightarrow> bool" where
  "isdigit c = (c \<in> set ''0123456789'')"

definition digit_value :: "char \<Rightarrow> nat" where
  "digit_value c = of_char c - 48"

text \<open>The digits of a decimal numeral, most significant first, as \<open>strtol\<close> adds them up.\<close>

fun decimal :: "nat \<Rightarrow> string \<Rightarrow> nat" where
  "decimal acc [] = acc"
| "decimal acc (c # cs) = decimal (acc * 10 + digit_value c) cs"

definition LONG_MAX :: int where
  "LONG_MAX = 2 ^ 63 - 1"

definition LONG_MIN :: int where
  "LONG_MIN = - (2 ^ 63)"

definition INT_MAX :: int where
  "INT_MAX = 2 ^ 31 - 1"

definition INT_MIN :: int where
  "INT_MIN = - (2 ^ 31)"

text \<open>
  \<open>fgets(buf, n, file)\<close> on the bytes not yet read: no bytes left (or a read error) is
  \<open>NULL\<close>; otherwise it stores at most \<open>n - 1\<close> bytes, stopping after a newline, and
  leaves the rest in the file.
\<close>

fun fgets_take :: "nat \<Rightarrow> string \<Rightarrow> string \<times> string" where
  "fgets_take k [] = ([], [])"
| "fgets_take k (c # s) =
     (if k = 0 then ([], c # s)
      else if c = NL then ([c], s)
      else (case fgets_take (k - 1) s of (got, rest) \<Rightarrow> (c # got, rest)))"

definition fgets :: "nat \<Rightarrow> string \<Rightarrow> (string \<times> string) option" where
  "fgets n s = (if s = [] then None else Some (fgets_take (n - 1) s))"

text \<open>
  \<open>strspn(s, accept)\<close>, \<open>strlen(s)\<close> and \<open>strstr(haystack, needle)\<close>; the last
  returns the suffix of the haystack that starts at the first occurrence.
\<close>

definition strspn :: "string \<Rightarrow> string \<Rightarrow> nat" where
  "strspn s accept = length (takeWhile (\<lambda>c. c \<in> set accept) s)"

definition strlen :: "string \<Rightarrow> nat" where
  "strlen s = length s"

fun strstr :: "string \<Rightarrow> string \<Rightarrow> string option" where
  "strstr [] needle = (if needle = [] then Some [] else None)"
| "strstr (c # s) needle =
     (if prefix needle (c # s) then Some (c # s) else strstr s needle)"

text \<open>
  The optionally signed decimal integer at the start of a string: \<open>strtol\<close> in base
  10 after the white space. It yields the sign, the digits and what follows them.
\<close>

definition scan_sign :: "string \<Rightarrow> bool \<times> string" where
  "scan_sign s =
     (case s of
        [] \<Rightarrow> (False, [])
      | c # cs \<Rightarrow>
          if c = CHR ''-'' then (True, cs)
          else if c = CHR ''+'' then (False, cs)
          else (False, c # cs))"

definition signed_value :: "bool \<Rightarrow> string \<Rightarrow> int" where
  "signed_value neg ds = (if neg then - int (decimal 0 ds) else int (decimal 0 ds))"

text \<open>
  \<open>atoi(s)\<close>: white space, a sign, then digits; no digits give 0. A value outside
  \<open>int\<close> is undefined.
\<close>

definition atoi :: "string \<Rightarrow> fault + int" where
  "atoi s =
     (case scan_sign (dropWhile isspace s) of
        (neg, s1) \<Rightarrow>
          (let v = signed_value neg (takeWhile isdigit s1)
           in if v < INT_MIN \<or> INT_MAX < v then Inl PidOverflow else Inr v))"

text \<open>
  \<open>sscanf(line, "%s %ld kB", key, &value)\<close>. The result is the number of
  conversions stored: \<open>EOF\<close> when the input ends before a token, 1 when a token was
  stored and no integer follows it, 2 when both were stored. The directive \<open>kB\<close>
  comes after the last conversion, so whether it matches does not change the result.
\<close>

datatype scanned = Scanned_EOF | Scanned_1 string | Scanned_2 string int

definition sscanf_s_ld_kB :: "string \<Rightarrow> fault + scanned" where
  "sscanf_s_ld_kB line =
     (let s1 = dropWhile isspace (cstr line);
          key = takeWhile (\<lambda>c. \<not> isspace c) s1;
          s2 = dropWhile (\<lambda>c. \<not> isspace c) s1
      in if key = [] then Inr Scanned_EOF
         else if 64 \<le> length key then Inl KeyOverflow
         else
           (case scan_sign (dropWhile isspace s2) of
              (neg, s3) \<Rightarrow>
                (let ds = takeWhile isdigit s3; v = signed_value neg ds
                 in if ds = [] then Inr (Scanned_1 key)
                    else if v < LONG_MIN \<or> LONG_MAX < v then Inl ValueOverflow
                    else Inr (Scanned_2 key v))))"

text \<open>\<open>printf("%ld", v)\<close> and \<open>printf("%d", v)\<close>.\<close>

fun digits_of :: "nat \<Rightarrow> string" where
  "digits_of n =
     (if n < 10 then [char_of (48 + n)]
      else digits_of (n div 10) @ [char_of (48 + n mod 10)])"

definition print_int :: "int \<Rightarrow> string" where
  "print_int v = (if v < 0 then CHR ''-'' # digits_of (nat (- v)) else digits_of (nat v))"


section \<open>The memory record and get\_memory\_usage\<close>

record memory_info =
  vm_size :: int
  vm_rss :: int
  vm_data :: int
  vm_stack :: int

text \<open>\<open>memory_info mem = {0}\<close>.\<close>

definition mem_zero :: memory_info where
  "mem_zero = \<lparr>vm_size = 0, vm_rss = 0, vm_data = 0, vm_stack = 0\<rparr>"

text \<open>
  The environment as the program sees it: the names \<open>readdir\<close> returns for \<open>/proc\<close>,
  in its order (\<open>None\<close> when \<open>opendir\<close> fails), and for each path the bytes that
  reading the file delivers (\<open>None\<close> when \<open>fopen\<close> fails; a read error ends the bytes).

  The third field is what the C library leaves of a directory entry. \<open>readdir\<close>
  returns a pointer into storage of the stream, and \<open>closedir\<close> releases that
  storage. \<open>get_node_pid\<close> reads the name of the entry it found after \<open>closedir\<close>;
  C gives this read no meaning. For the entry that was named \<open>d\<close>,
  \<open>d_name_after_closedir d\<close> is what the read finds: \<open>None\<close> when it finds no string
  the program can go on with, \<open>Some\<close> of the bytes that the released storage holds
  otherwise (with an allocator that leaves released storage as it was, the name
  itself).
\<close>

record proc_fs =
  proc_dir :: "string list option"
  fopen :: "string \<Rightarrow> string option"
  d_name_after_closedir :: "string \<Rightarrow> string option"

text \<open>The body of the loop over the lines of the status file.\<close>

definition process_line :: "memory_info \<Rightarrow> string \<Rightarrow> fault + memory_info" where
  "process_line mem line =
     (case sscanf_s_ld_kB line of
        Inl e \<Rightarrow> Inl e
      | Inr (Scanned_2 key v) \<Rightarrow>
          Inr (if key = ''VmSize:'' then mem\<lparr>vm_size := v\<rparr>
               else if key = ''VmRSS:'' then mem\<lparr>vm_rss := v\<rparr>
               else if key = ''VmData:'' then mem\<lparr>vm_data := v\<rparr>
               else if key = ''VmStk:'' then mem\<lparr>vm_stack := v\<rparr>
               else mem)
      | Inr _ \<Rightarrow> Inr mem)"

lemma fgets_take_shorter:
  "0 < k \<Longrightarrow> s \<noteq> [] \<Longrightarrow> length (snd (fgets_take k s)) < length s"
proof (induction k s rule: fgets_take.induct)
  case (1 k)
  then show ?case by simp
next
  case (2 k c s)
  show ?case
  proof (cases "c = NL")
    case True
    with 2 show ?thesis by simp
  next
    case False
    show ?thesis
    proof (cases "k - 1 = 0 \<or> s = []")
      case True
      with 2 False show ?thesis
        by (cases s) (auto split: prod.splits)
    next
      case False2: False
      with 2 False have "length (snd (fgets_take (k - 1) s)) < length s"
        by simp
      with 2 False show ?thesis
        by (auto split: prod.splits)
    qed
  qed
qed

lemma fgets_shorter:
  assumes "fgets n s = Some (line, rest)" and "1 < n"
  shows "length rest < length s"
proof -
  from assms have "s \<noteq> []" and "rest = snd (fgets_take (n - 1) s)"
    by (auto simp: fgets_def split: if_splits)
  with assms(2) show ?thesis
    using fgets_take_shorter [of "n - 1" s] by simp
qed

function read_status :: "memory_info \<Rightarrow> string \<Rightarrow> fault + memory_info" where
  "read_status mem s =
     (case fgets 256 s of
        None \<Rightarrow> Inr mem
      | Some (line, rest) \<Rightarrow>
          (case process_line mem line of
             Inl e \<Rightarrow> Inl e
           | Inr mem' \<Rightarrow> read_status mem' rest))"
  by pat_completeness auto
termination
  by (relation "measure (\<lambda>(mem, s). length s)") (auto dest: fgets_shorter)

definition status_path :: "int \<Rightarrow> string" where
  "status_path pid = ''/proc/'' @ print_int pid @ ''/status''"

definition get_memory_usage :: "proc_fs \<Rightarrow> int \<Rightarrow> fault + memory_info" where
  "get_memory_usage sys pid =
     (case fopen sys (status_path pid) of
        None \<Rightarrow> Inr mem_zero
      | Some bytes \<Rightarrow> read_status mem_zero bytes)"

section \<open>get\_node\_pid\<close>

text \<open>
  \<open>snprintf(path, sizeof(path), "/proc/%s/cmdline", entry->d_name)\<close> with
  \<open>char path[256]\<close>: at most 255 bytes are kept. A directory entry's name is a C
  string, so it holds no NUL byte.
\<close>

definition cmdline_path :: "string \<Rightarrow> string" where
  "cmdline_path d_name = take 255 (''/proc/'' @ d_name @ ''/cmdline'')"

text \<open>
  The \<open>readdir\<close> loop, on the entries not yet returned. On a match the source runs
  \<open>fclose(cmdline_file); closedir(proc_dir); return atoi(entry->d_name);\<close> in this
  order, so \<open>atoi\<close> is given what is left of the name after \<open>closedir\<close>.
\<close>

fun scan_entries :: "proc_fs \<Rightarrow> string list \<Rightarrow> fault + int" where
  "scan_entries sys [] = Inr (- 1)"
| "scan_entries sys (d_name # entries) =
     (if strspn d_name ''0123456789'' = strlen d_name then
        (case fopen sys (cmdline_path d_name) of
           None \<Rightarrow> scan_entries sys entries
         | Some bytes \<Rightarrow>
             (case fgets 1024 bytes of
                None \<Rightarrow> scan_entries sys entries
              | Some (cmdline, rest) \<Rightarrow>
                  if strstr (cstr cmdline) ''node'' \<noteq> None then
                    (case d_name_after_closedir sys d_name of
                       None \<Rightarrow> Inl ReleasedName
                     | Some name \<Rightarrow> atoi name)
                  else scan_entries sys entries))
      else scan_entries sys entries)"

definition get_node_pid :: "proc_fs \<Rightarrow> fault + int" where
  "get_node_pid sys =
     (case proc_dir sys of
        None \<Rightarrow> Inr (- 1)
      | Some entries \<Rightarrow> scan_entries sys entries)"


section \<open>display\_memory and main\<close>

text \<open>
  \<open>mem.vm_size / 1024.0\<close> converts the \<open>long\<close> to a \<open>double\<close> and divides. The
  conversion rounds to 53 significant bits, ties to even, so it is exact up to
  \<open>2 ^ 53\<close>; the result is a whole number, given here as an integer. Dividing a
  double by 1024 only lowers its exponent, so the quotient is exact.
\<close>

fun bit_length :: "nat \<Rightarrow> nat" where
  "bit_length n = (if n = 0 then 0 else Suc (bit_length (n div 2)))"

definition round_half_even :: "int \<Rightarrow> int \<Rightarrow> int" where
  "round_half_even n d =
     (let q = n div d; r = n mod d
      in if 2 * r < d then q
         else if d < 2 * r then q + 1
         else if even q then q else q + 1)"

definition long_to_double :: "int \<Rightarrow> int" where
  "long_to_double v =
     (let e = bit_length (nat \<bar>v\<bar>) - 53
      in round_half_even v (2 ^ e) * 2 ^ e)"

text \<open>
  \<open>printf("%.2f", x)\<close> for the double \<open>x\<close> whose exact value is \<open>n / d\<close>: the
  nearest multiple of one hundredth, ties to even; \<open>hundredths\<close> is its distance
  from zero in hundredths.
\<close>

definition hundredths :: "int \<Rightarrow> int \<Rightarrow> nat" where
  "hundredths n d = nat (round_half_even (\<bar>n\<bar> * 100) d)"

definition print_f2 :: "int \<Rightarrow> int \<Rightarrow> string" where
  "print_f2 n d =
     (let h = hundredths n d
      in (if n < 0 then ''-'' else []) @ digits_of (h div 100) @ ''.''
         @ [char_of (48 + h mod 100 div 10), char_of (48 + h mod 10)])"

definition mb_text :: "int \<Rightarrow> string" where
  "mb_text v = print_f2 (long_to_double v) 1024"

definition display_memory :: "memory_info \<Rightarrow> string" where
  "display_memory mem =
     ''Memory Usage (KB):\<newline>''
     @ ''Virtual Size: '' @ print_int (vm_size mem) @ ''\<newline>''
     @ ''Physical RSS: '' @ print_int (vm_rss mem) @ ''\<newline>''
     @ ''Data Segment: '' @ print_int (vm_data mem) @ ''\<newline>''
     @ ''Stack Size: '' @ print_int (vm_stack mem) @ ''\<newline>''
     @ ''\<newline>Memory Usage (MB):\<newline>''
     @ ''Virtual Size: '' @ mb_text (vm_size mem) @ ''\<newline>''
     @ ''Physical RSS: '' @ mb_text (vm_rss mem) @ ''\<newline>''"

text \<open>\<open>main\<close>: what it writes to standard output and its exit status.\<close>

definition main :: "proc_fs \<Rightarrow> fault + string \<times> int" where
  "main sys =
     (case get_node_pid sys of
        Inl e \<Rightarrow> Inl e
      | Inr pid \<Rightarrow>
          if pid = - 1 then Inr (''No Node.js process found\<newline>'', 1)
          else
            (let found = ''Found Node.js process: PID '' @ print_int pid @ ''\<newline>''
             in case get_memory_usage sys pid of
                  Inl e \<Rightarrow> Inl e
                | Inr mem \<Rightarrow>
                    if vm_size mem = 0
                    then Inr (found @ ''Failed to read memory information\<newline>'', 1)
                    else Inr (found @ display_memory mem, 0)))"

section \<open>Vocabulary for the properties\<close>

text \<open>
  What \<open>get_node_pid\<close> examines of a command-line record: \<open>fgets\<close> stores its
  first line, at most 1023 bytes of it, and \<open>strstr\<close> reads the stored bytes up to
  the first NUL byte.
\<close>

definition first_line :: "string \<Rightarrow> string" where
  "first_line s = takeWhile (\<lambda>c. c \<noteq> NL) s @ take 1 (dropWhile (\<lambda>c. c \<noteq> NL) s)"

definition examined_text :: "string \<Rightarrow> string" where
  "examined_text bytes = cstr (take 1023 (first_line bytes))"

text \<open>An entry of \<open>/proc\<close> that the loop returns: a name of digits only whose
  command-line record opens and shows \<open>node\<close> in the examined text.\<close>

definition matching :: "(string \<Rightarrow> string option) \<Rightarrow> string \<Rightarrow> bool" where
  "matching fo d =
     (list_all isdigit d \<and>
      (case fo (cmdline_path d) of
         None \<Rightarrow> False
       | Some bytes \<Rightarrow> sublist ''node'' (examined_text bytes)))"


text \<open>
  A process table with one process, started as \<open>python node.py\<close>, and the same table
  with two \<open>node\<close> processes.
\<close>

definition sys_second_arg :: proc_fs where
  "sys_second_arg =
     \<lparr>proc_dir = Some [''5''],
      fopen = (\<lambda>p. if p = ''/proc/5/cmdline''
                    then Some (''python'' @ [NUL] @ ''node.py'' @ [NUL]) else None),
      d_name_after_closedir = Some\<rparr>"



text \<open>
  The end-to-end scenario of the specification: one process, \<open>/usr/bin/node server.js\<close>,
  with the four recognised lines in its status record, and a C library that leaves
  the name of an entry in place when the directory is closed.
\<close>

definition sys_node :: proc_fs where
  "sys_node =
     \<lparr>proc_dir = Some [''self'', ''42''],
      fopen = (\<lambda>p. if p = ''/proc/42/cmdline''
                    then Some (''/usr/bin/node'' @ [NUL] @ ''server.js'' @ [NUL])
                    else if p = ''/proc/42/status''
                    then Some ''VmSize: 50000 kB\<newline>VmRSS: 20000 kB\<newline>VmData: 10000 kB\<newline>VmStk: 132 kB\<newline>''
                    else None),
      d_name_after_closedir = Some\<rparr>"

text \<open>
  The shape of a line that \<open>sscanf\<close> converts twice, cut into its parts: white
  space, the token, white space, a sign or nothing, digits, and a rest that does not
  go on with a digit.
\<close>

definition key_value_shape ::
  "string \<Rightarrow> string \<Rightarrow> string \<Rightarrow> string \<Rightarrow> string \<Rightarrow> string \<Rightarrow> bool" where
  "key_value_shape ws key ws' sg ds rest =
     (list_all isspace ws
      \<and> key \<noteq> [] \<and> list_all (\<lambda>c. \<not> isspace c) key
      \<and> ws' \<noteq> [] \<and> list_all isspace ws'
      \<and> (sg = [] \<or> sg = ''+'' \<or> sg = ''-'')
      \<and> ds \<noteq> [] \<and> list_all isdigit ds
      \<and> (case rest of [] \<Rightarrow> True | c # _ \<Rightarrow> \<not> isdigit c))"

text \<open>
  The lines of a status record as \<open>fgets\<close> with a buffer of 256 bytes delivers them,
  the loop of \<open>get_memory_usage\<close> over such a list, and whether a line makes
  \<open>sscanf\<close> store a value under a given key.
\<close>

function status_lines :: "string \<Rightarrow> string list" where
  "status_lines s =
     (case fgets 256 s of
        None \<Rightarrow> []
      | Some (line, rest) \<Rightarrow> line # status_lines rest)"
  by pat_completeness auto
termination
  by (relation "measure length") (auto dest: fgets_shorter)

fun process_lines :: "memory_info \<Rightarrow> string list \<Rightarrow> fault + memory_info" where
  "process_lines mem [] = Inr mem"
| "process_lines mem (l # ls) =
     (case process_line mem l of
        Inl e \<Rightarrow> Inl e
      | Inr mem' \<Rightarrow> process_lines mem' ls)"

definition assigns :: "string \<Rightarrow> string \<Rightarrow> bool" where
  "assigns key line =
     (case sscanf_s_ld_kB line of
        Inr (Scanned_2 k v) \<Rightarrow> k = key
      | _ \<Rightarrow> False)"

text \<open>
  The lines of a record: each ends with its newline, except a last line that the
  record leaves unfinished. \<open>well_cut\<close> says of a list of strings that it is cut this
  way.
\<close>

fun record_lines :: "string \<Rightarrow> string list" where
  "record_lines [] = []"
| "record_lines (c # s) =
     (if c = NL then [c] # record_lines s
      else (case record_lines s of [] \<Rightarrow> [[c]] | l # ls \<Rightarrow> (c # l) # ls))"

fun well_cut :: "string list \<Rightarrow> bool" where
  "well_cut [] = True"
| "well_cut [l] = (l \<noteq> [] \<and> NL \<notin> set (butlast l))"
| "well_cut (l # l' # ls) =
     (l \<noteq> [] \<and> NL \<notin> set (butlast l) \<and> last l = NL \<and> well_cut (l' # ls))"

text \<open>
  Whether a buffer that \<open>fgets\<close> delivers makes the loop store a negative value in one
  of the four fields.
\<close>

definition stores_negative :: "string \<Rightarrow> bool" where
  "stores_negative line =
     (case sscanf_s_ld_kB line of
        Inr (Scanned_2 key v) \<Rightarrow>
          key \<in> set [''VmSize:'', ''VmRSS:'', ''VmData:'', ''VmStk:''] \<and> v < 0
      | _ \<Rightarrow> False)"

text \<open>
  The last-wins rule as the specification words it, for comparison: the value on the
  last line of the record that gives the key.
\<close>

definition spec_final_value :: "string \<Rightarrow> string \<Rightarrow> int option" where
  "spec_final_value key bytes =
     (case filter (assigns key) (record_lines bytes) of
        [] \<Rightarrow> None
      | l # ls \<Rightarrow>
          (case sscanf_s_ld_kB (last (l # ls)) of
             Inr (Scanned_2 k v) \<Rightarrow> Some v
           | _ \<Rightarrow> None))"

text \<open>
  Status records: one that gives \<open>VmSize:\<close> twice; one as Linux writes them, with a
  first line that has no number and a last line that has a minus sign; and one whose
  second line, 244 blanks and then \<open>VmSize: 1234567 kB\<close>, is longer than the buffer.
  \<open>sys_status\<close> is an environment in which every file holds the given record.
\<close>

definition status_twice :: string where
  "status_twice = ''VmSize: 1 kB\<newline>VmRSS: 3 kB\<newline>VmSize: 2 kB\<newline>VmData: 4 kB\<newline>''"

definition status_real :: string where
  "status_real =
     ''Name:'' @ [CHR 0x09] @ ''node\<newline>''
     @ ''VmSize:'' @ [CHR 0x09] @ ''    1200 kB\<newline>''
     @ ''VmRSS:'' @ [CHR 0x09] @ ''     340 kB\<newline>''
     @ ''Cpus_allowed_list:'' @ [CHR 0x09] @ ''0-3\<newline>''"

definition long_line :: string where
  "long_line = replicate 244 (CHR '' '') @ ''VmSize: 1234567 kB\<newline>''"

definition status_long_line :: string where
  "status_long_line = ''VmSize: 5 kB\<newline>'' @ long_line"

definition sys_status :: "string \<Rightarrow> proc_fs" where
  "sys_status bytes =
     \<lparr>proc_dir = None, fopen = (\<lambda>p. Some bytes), d_name_after_closedir = Some\<rparr>"

declare digits_of.simps [simp del] bit_length.simps [simp del] read_status.simps [simp del]
  status_lines.simps [simp del]


section \<open>Properties of get\_memory\_usage\<close>

text \<open>
  C4. When the status record of \<open>pid\<close> cannot be opened, \<open>get_memory_usage\<close> returns
  the record with all four fields zero. The function has no other result than a
  record, so the zero record is all the caller can see of the failure.
\<close>

theorem get_memory_usage_unopened:
  assumes "fopen sys (status_path pid) = None"
  shows "get_memory_usage sys pid =
    Inr \<lparr>vm_size = 0, vm_rss = 0, vm_data = 0, vm_stack = 0\<rparr>"
  using assms by (simp add: get_memory_usage_def mem_zero_def)

theorem get_memory_usage_unopened_witness:
  "fopen \<lparr>proc_dir = None, fopen = (\<lambda>p. None), d_name_after_closedir = Some\<rparr> (status_path 42) = None
   \<and> get_memory_usage \<lparr>proc_dir = None, fopen = (\<lambda>p. None), d_name_after_closedir = Some\<rparr> 42 =
       Inr \<lparr>vm_size = 0, vm_rss = 0, vm_data = 0, vm_stack = 0\<rparr>"
  using get_memory_usage_unopened [of "\<lparr>proc_dir = None, fopen = (\<lambda>p. None), d_name_after_closedir = Some\<rparr>" 42]
  by simp

text \<open>
  C8. \<open>get_memory_usage\<close> is a function of the contents of the status record: two
  reads that find the same record for \<open>pid\<close> return the same result, whatever
  else the file system holds.
\<close>

theorem get_memory_usage_deterministic:
  assumes "fopen sys (status_path pid) = fopen sys' (status_path pid)"
  shows "get_memory_usage sys pid = get_memory_usage sys' pid"
  using assms by (simp add: get_memory_usage_def)

theorem get_memory_usage_deterministic_witness:
  "fopen \<lparr>proc_dir = None, fopen = (\<lambda>p. Some ''VmSize: 12 kB\<newline>''), d_name_after_closedir = Some\<rparr> (status_path 7)
     = fopen \<lparr>proc_dir = Some [''7''], fopen = (\<lambda>p. Some ''VmSize: 12 kB\<newline>''), d_name_after_closedir = Some\<rparr>
         (status_path 7)
   \<and> get_memory_usage \<lparr>proc_dir = None, fopen = (\<lambda>p. Some ''VmSize: 12 kB\<newline>''), d_name_after_closedir = Some\<rparr> 7
     = get_memory_usage
         \<lparr>proc_dir = Some [''7''], fopen = (\<lambda>p. Some ''VmSize: 12 kB\<newline>''), d_name_after_closedir = Some\<rparr> 7"
  using get_memory_usage_deterministic
    [of "\<lparr>proc_dir = None, fopen = (\<lambda>p. Some ''VmSize: 12 kB\<newline>''), d_name_after_closedir = Some\<rparr>" 7
        "\<lparr>proc_dir = Some [''7''], fopen = (\<lambda>p. Some ''VmSize: 12 kB\<newline>''), d_name_after_closedir = Some\<rparr>"]
  by simp


section \<open>Properties of the status parser\<close>

lemmas scan_eval = process_line_def sscanf_s_ld_kB_def cstr_def NUL_def isspace_def
  scan_sign_def isdigit_def signed_value_def digit_value_def LONG_MIN_def LONG_MAX_def

lemma dropWhile_all: "list_all P xs \<Longrightarrow> dropWhile P (xs @ ys) = dropWhile P ys"
  by (induction xs) simp_all

lemma takeWhile_all: "list_all P xs \<Longrightarrow> takeWhile P (xs @ ys) = xs @ takeWhile P ys"
  by (induction xs) simp_all

lemma takeWhile_stop: "(case ys of [] \<Rightarrow> True | c # _ \<Rightarrow> \<not> P c) \<Longrightarrow> takeWhile P ys = []"
  by (cases ys) simp_all

lemma dropWhile_stop: "(case ys of [] \<Rightarrow> True | c # _ \<Rightarrow> \<not> P c) \<Longrightarrow> dropWhile P ys = ys"
  by (cases ys) simp_all

lemma dropWhile_head: "case dropWhile P xs of [] \<Rightarrow> True | c # _ \<Rightarrow> \<not> P c"
  by (induction xs) simp_all

lemma takeWhile_list_all: "list_all P (takeWhile P xs)"
  by (induction xs) simp_all

lemma digit_not_space: "isdigit c \<Longrightarrow> \<not> isspace c \<and> c \<noteq> CHR ''-'' \<and> c \<noteq> CHR ''+''"
  by (auto simp: isdigit_def isspace_def)

lemma scan_sign_shape:
  assumes "sg = [] \<or> sg = ''+'' \<or> sg = ''-''" and "ds \<noteq> []" and "list_all isdigit ds"
  shows "scan_sign (sg @ ds @ rest) = (sg = ''-'', ds @ rest)"
    and "dropWhile isspace (sg @ ds @ rest) = sg @ ds @ rest"
proof -
  from assms(2,3) obtain d ds' where ds: "ds = d # ds'" and d: "isdigit d"
    by (cases ds) auto
  from d have nd: "\<not> isspace d" "d \<noteq> CHR ''-''" "d \<noteq> CHR ''+''"
    using digit_not_space [of d] by simp_all
  from assms(1) ds nd show "scan_sign (sg @ ds @ rest) = (sg = ''-'', ds @ rest)"
    by (auto simp: scan_sign_def)
  from assms(1) ds nd show "dropWhile isspace (sg @ ds @ rest) = sg @ ds @ rest"
    by (auto simp: isspace_def)
qed

lemma scan_sign_parts:
  assumes "scan_sign s = (neg, s3)"
  shows "\<exists>sg. s = sg @ s3 \<and> (sg = [] \<or> sg = ''+'' \<or> sg = ''-'') \<and> neg = (sg = ''-'')"
proof (cases s)
  case Nil
  with assms show ?thesis
    by (simp add: scan_sign_def)
next
  case (Cons c cs)
  with assms show ?thesis
    by (auto simp: scan_sign_def split: if_splits)
qed

text \<open>A line of the shape is converted twice, and only such a line is.\<close>

lemma sscanf_complete:
  assumes line: "cstr line = ws @ key @ ws' @ sg @ ds @ rest"
    and shape: "key_value_shape ws key ws' sg ds rest"
  shows "sscanf_s_ld_kB line =
    (if 64 \<le> length key then Inl KeyOverflow
     else if signed_value (sg = ''-'') ds < LONG_MIN \<or> LONG_MAX < signed_value (sg = ''-'') ds
       then Inl ValueOverflow
     else Inr (Scanned_2 key (signed_value (sg = ''-'') ds)))"
proof -
  from shape have ws: "list_all isspace ws"
    and key: "key \<noteq> []" "list_all (\<lambda>c. \<not> isspace c) key"
    and ws': "ws' \<noteq> []" "list_all isspace ws'"
    and sg: "sg = [] \<or> sg = ''+'' \<or> sg = ''-''"
    and ds: "ds \<noteq> []" "list_all isdigit ds"
    and rest: "case rest of [] \<Rightarrow> True | c # _ \<Rightarrow> \<not> isdigit c"
    by (simp_all add: key_value_shape_def)
  let ?tail = "ws' @ sg @ ds @ rest"
  from key obtain k key' where k: "key = k # key'" "\<not> isspace k"
    by (cases key) auto
  from ws' obtain w ws'' where w: "ws' = w # ws''" "isspace w"
    by (cases ws') auto
  have s1: "dropWhile isspace (cstr line) = key @ ?tail"
    unfolding line using ws k by (simp add: dropWhile_all)
  have tk: "takeWhile (\<lambda>c. \<not> isspace c) (key @ ?tail) = key"
    using key(2) w by (simp add: takeWhile_all)
  have s2: "dropWhile (\<lambda>c. \<not> isspace c) (key @ ?tail) = ?tail"
    using key(2) w by (simp add: dropWhile_all)
  have s3: "dropWhile isspace ?tail = sg @ ds @ rest"
    using ws'(2) scan_sign_shape(2) [OF sg ds] by (simp add: dropWhile_all)
  have sign: "scan_sign (sg @ ds @ rest) = (sg = ''-'', ds @ rest)"
    using sg ds by (rule scan_sign_shape)
  have digits: "takeWhile isdigit (ds @ rest) = ds"
    using ds(2) rest by (simp add: takeWhile_all takeWhile_stop)
  from key(1) ds(1) show ?thesis
    by (simp add: sscanf_s_ld_kB_def Let_def s1 tk s2 s3 sign digits)
qed

lemma sscanf_sound:
  assumes "sscanf_s_ld_kB line = Inr (Scanned_2 key v)"
  shows "\<exists>ws ws' sg ds rest.
    cstr line = ws @ key @ ws' @ sg @ ds @ rest
    \<and> key_value_shape ws key ws' sg ds rest
    \<and> v = signed_value (sg = ''-'') ds"
proof -
  define ws where "ws = takeWhile isspace (cstr line)"
  define s1 where "s1 = dropWhile isspace (cstr line)"
  define key0 where "key0 = takeWhile (\<lambda>c. \<not> isspace c) s1"
  define s2 where "s2 = dropWhile (\<lambda>c. \<not> isspace c) s1"
  define ws' where "ws' = takeWhile isspace s2"
  define s2' where "s2' = dropWhile isspace s2"
  obtain neg s3 where sign: "scan_sign s2' = (neg, s3)"
    by (cases "scan_sign s2'")
  define ds where "ds = takeWhile isdigit s3"
  define rest where "rest = dropWhile isdigit s3"
  from assms sign have res: "key0 \<noteq> []" "ds \<noteq> []" "key = key0" "v = signed_value neg ds"
    by (auto simp: sscanf_s_ld_kB_def Let_def s1_def [symmetric] key0_def [symmetric]
        s2_def [symmetric] s2'_def [symmetric] ds_def [symmetric] split: if_splits)
  from scan_sign_parts [OF sign] obtain sg where
    sg: "s2' = sg @ s3" "sg = [] \<or> sg = ''+'' \<or> sg = ''-''" "neg = (sg = ''-'')"
    by blast
  have parts: "cstr line = ws @ s1" "s1 = key0 @ s2" "s2 = ws' @ s2'" "s3 = ds @ rest"
    by (simp_all add: ws_def s1_def key0_def s2_def ws'_def s2'_def ds_def rest_def)
  from res(2) parts(4) sg(1) have "s2' \<noteq> []"
    by auto
  then have "s2 \<noteq> []"
    by (auto simp: s2'_def)
  moreover have "case s2 of [] \<Rightarrow> True | c # _ \<Rightarrow> \<not> \<not> isspace c"
    unfolding s2_def by (rule dropWhile_head)
  ultimately have "ws' \<noteq> []"
    by (cases s2) (simp_all add: ws'_def)
  moreover have "list_all isspace ws" "list_all (\<lambda>c. \<not> isspace c) key0" "list_all isspace ws'"
    "list_all isdigit ds"
    by (simp_all add: ws_def key0_def ws'_def ds_def takeWhile_list_all)
  moreover have "case rest of [] \<Rightarrow> True | c # _ \<Rightarrow> \<not> isdigit c"
    unfolding rest_def by (rule dropWhile_head)
  ultimately have shape: "key_value_shape ws key ws' sg ds rest"
    using res sg(2) by (simp add: key_value_shape_def)
  have "cstr line = ws @ key @ ws' @ sg @ ds @ rest"
    using parts sg(1) res(3) by simp
  with shape res(4) sg(3) show ?thesis
    by blast
qed

text \<open>The loop of \<open>get_memory_usage\<close> is the loop over the buffers that \<open>fgets\<close> delivers.\<close>

lemma read_status_lines: "read_status mem s = process_lines mem (status_lines s)"
proof (induction mem s rule: read_status.induct)
  case (1 mem s)
  show ?case
  proof (cases "fgets 256 s")
    case None
    then show ?thesis
      by (simp add: read_status.simps [of mem s] status_lines.simps [of s])
  next
    case (Some p)
    obtain line rest where p: "p = (line, rest)"
      by (cases p)
    show ?thesis
    proof (cases "process_line mem line")
      case (Inl e)
      with Some p show ?thesis
        by (simp add: read_status.simps [of mem s] status_lines.simps [of s])
    next
      case (Inr mem')
      with 1 Some p have "read_status mem' rest = process_lines mem' (status_lines rest)"
        by simp
      with Some p Inr show ?thesis
        by (simp add: read_status.simps [of mem s] status_lines.simps [of s])
    qed
  qed
qed

lemma process_lines_append:
  "process_lines mem (xs @ ys) =
     (case process_lines mem xs of Inl e \<Rightarrow> Inl e | Inr m \<Rightarrow> process_lines m ys)"
  by (induction xs arbitrary: mem) (simp_all split: sum.splits)

lemma fgets_take_parts: "fgets_take k s = (got, rest) \<Longrightarrow> s = got @ rest"
proof (induction k s arbitrary: got rest rule: fgets_take.induct)
  case (1 k)
  then show ?case by simp
next
  case (2 k c s)
  show ?case
  proof (cases "k = 0 \<or> c = NL")
    case True
    with 2(2) show ?thesis
      by (auto split: if_splits)
  next
    case False
    obtain g r where gr: "fgets_take (k - 1) s = (g, r)"
      by (cases "fgets_take (k - 1) s")
    with 2(1) False have "s = g @ r"
      by simp
    with 2(2) False gr show ?thesis
      by simp
  qed
qed

text \<open>
  How the buffers lie in the record. A line of at most 255 bytes, newline included, is
  one buffer, wherever it stands: \<open>fgets\<close> stops after each newline, so every line
  starts a new buffer. A longer line comes in pieces of 255 bytes.
\<close>

lemma concat_record_lines: "concat (record_lines s) = s"
  by (induction s) (auto split: list.splits)

lemma record_lines_Nil: "record_lines s = [] \<longleftrightarrow> s = []"
  by (cases s) (auto split: list.splits)

lemma well_cut_record_lines: "well_cut (record_lines s)"
proof (induction s)
  case Nil
  show ?case by simp
next
  case (Cons c s)
  show ?case
  proof (cases "c = NL")
    case True
    with Cons show ?thesis
      by (cases "record_lines s") simp_all
  next
    case False
    show ?thesis
    proof (cases "record_lines s")
      case Nil
      with False show ?thesis by simp
    next
      case outer: (Cons l ls)
      with Cons False show ?thesis
        by (cases ls) (auto simp: butlast.simps)
    qed
  qed
qed

lemma fgets_take_line:
  assumes "l \<noteq> []" and "NL \<notin> set (butlast l)" and "length l \<le> k"
    and "last l = NL \<or> t = []"
  shows "fgets_take k (l @ t) = (l, t)"
  using assms
proof (induction l arbitrary: k)
  case Nil
  then show ?case by simp
next
  case (Cons c l)
  show ?case
  proof (cases "l = []")
    case True
    with Cons.prems show ?thesis
      by (cases t) auto
  next
    case False
    with Cons.prems have c: "c \<noteq> NL" and k: "0 < k"
      and rest: "NL \<notin> set (butlast l)" "length l \<le> k - 1" "last l = NL \<or> t = []"
      by auto
    from Cons.IH [OF False rest] have "fgets_take (k - 1) (l @ t) = (l, t)" .
    with c k show ?thesis
      by simp
  qed
qed

lemma status_lines_line:
  assumes "l \<noteq> []" and "NL \<notin> set (butlast l)" and "length l \<le> 255"
    and "last l = NL \<or> t = []"
  shows "status_lines (l @ t) = l # status_lines t"
  using assms fgets_take_line [of l 255 t]
  by (simp add: status_lines.simps [of "l @ t"] fgets_def)

lemma fgets_take_aligned:
  assumes "s \<noteq> []" and "last s = NL"
  shows "fgets_take k (s @ t) = (fst (fgets_take k s), snd (fgets_take k s) @ t)"
  using assms
proof (induction k s rule: fgets_take.induct)
  case (1 k)
  then show ?case by simp
next
  case (2 k c s)
  show ?case
  proof (cases "k = 0 \<or> c = NL")
    case True
    then show ?thesis by auto
  next
    case False
    with 2(2,3) have s: "s \<noteq> []" "last s = NL"
      by (auto split: if_splits)
    with 2(1) False
    have "fgets_take (k - 1) (s @ t) = (fst (fgets_take (k - 1) s), snd (fgets_take (k - 1) s) @ t)"
      by simp
    with False show ?thesis
      by (simp split: prod.splits)
  qed
qed

lemma status_lines_Nil: "status_lines [] = []"
  by (simp add: status_lines.simps fgets_def)

lemma status_lines_aligned:
  assumes "s = [] \<or> last s = NL"
  shows "status_lines (s @ t) = status_lines s @ status_lines t"
  using assms
proof (induction s rule: status_lines.induct)
  case (1 s)
  show ?case
  proof (cases "s = []")
    case True
    then show ?thesis by (simp add: status_lines_Nil)
  next
    case False
    with 1(2) have last: "last s = NL"
      by simp
    obtain got rest where gr: "fgets_take 255 s = (got, rest)"
      by (cases "fgets_take 255 s")
    then have parts: "s = got @ rest"
      by (rule fgets_take_parts)
    from False gr have fg: "fgets 256 s = Some (got, rest)"
      by (simp add: fgets_def)
    from False last gr have fg': "fgets 256 (s @ t) = Some (got, rest @ t)"
      by (simp add: fgets_def fgets_take_aligned)
    from parts last have "rest = [] \<or> last rest = NL"
      by (cases "rest = []") simp_all
    with 1(1) fg have "status_lines (rest @ t) = status_lines rest @ status_lines t"
      by simp
    with fg fg' show ?thesis
      by (simp add: status_lines.simps [of s] status_lines.simps [of "s @ t"])
  qed
qed

lemma well_cut_tail: "well_cut (l # ls) \<Longrightarrow> well_cut ls"
  by (cases ls) simp_all

lemma well_cut_head:
  "well_cut (l # ls) \<Longrightarrow> l \<noteq> [] \<and> NL \<notin> set (butlast l) \<and> (last l = NL \<or> concat ls = [])"
  by (cases ls) simp_all

lemma well_cut_append:
  assumes "well_cut (xs @ y # ys)"
  shows "well_cut (y # ys)" and "concat xs = [] \<or> last (concat xs) = NL"
proof -
  from assms show "well_cut (y # ys)"
  proof (induction xs)
    case Nil
    then show ?case by simp
  next
    case (Cons x xs)
    from Cons.prems have "well_cut (xs @ y # ys)"
      using well_cut_tail [of x "xs @ y # ys"] by simp
    then show ?case by (rule Cons.IH)
  qed
  from assms show "concat xs = [] \<or> last (concat xs) = NL"
  proof (induction xs)
    case Nil
    then show ?case by simp
  next
    case (Cons x xs)
    from Cons.prems have tail: "well_cut (xs @ y # ys)"
      using well_cut_tail [of x "xs @ y # ys"] by simp
    from Cons.prems have x: "x \<noteq> []" "last x = NL"
      by (cases xs; simp)+
    define cs where "cs = concat xs"
    from Cons.IH [OF tail] have "cs = [] \<or> last cs = NL"
      by (simp only: cs_def)
    with x have "last (x @ cs) = NL"
      by (cases cs) auto
    then show ?case
      by (simp add: cs_def)
  qed
qed

lemma status_lines_short:
  assumes "well_cut ls" and "\<forall>l\<in>set ls. length l \<le> 255"
  shows "status_lines (concat ls) = ls"
  using assms
proof (induction ls)
  case Nil
  show ?case by (simp add: status_lines_Nil)
next
  case (Cons l ls)
  from Cons.prems(1) have l: "l \<noteq> []" "NL \<notin> set (butlast l)" "last l = NL \<or> concat ls = []"
    using well_cut_head [of l ls] by simp_all
  from Cons.prems have "status_lines (concat ls) = ls"
    by (intro Cons.IH) (auto dest: well_cut_tail)
  moreover from l Cons.prems(2) have "status_lines (l @ concat ls) = l # status_lines (concat ls)"
    by (intro status_lines_line) simp_all
  ultimately show ?case by simp
qed

lemma status_lines_record_line:
  assumes "record_lines bytes = before @ line # after" and "length line \<le> 255"
  shows "status_lines bytes = status_lines (concat before) @ line # status_lines (concat after)"
proof -
  have cut: "well_cut (before @ line # after)"
    using well_cut_record_lines [of bytes] assms(1) by simp
  then have tail: "well_cut (line # after)"
    and aligned: "concat before = [] \<or> last (concat before) = NL"
    by (rule well_cut_append)+
  from tail have l: "line \<noteq> []" "NL \<notin> set (butlast line)" "last line = NL \<or> concat after = []"
    using well_cut_head [of line after] by simp_all
  have "bytes = concat before @ line @ concat after"
    using concat_record_lines [of bytes] assms(1) by simp
  then have "status_lines bytes = status_lines (concat before) @ status_lines (line @ concat after)"
    using aligned by (simp add: status_lines_aligned)
  also have "status_lines (line @ concat after) = line # status_lines (concat after)"
    using l assms(2) by (intro status_lines_line)
  finally show ?thesis .
qed

lemma read_status_record_line:
  assumes "record_lines bytes = before @ line # after" and "length line \<le> 255"
  shows "read_status mem bytes =
    (case read_status mem (concat before) of
       Inl e \<Rightarrow> Inl e
     | Inr m \<Rightarrow>
         (case process_line m line of
            Inl e \<Rightarrow> Inl e
          | Inr m' \<Rightarrow> read_status m' (concat after)))"
  using status_lines_record_line [OF assms]
  by (simp add: read_status_lines process_lines_append split: sum.splits)

text \<open>
  C1, as amended. Take a line of the status record of at most 255 bytes, newline
  included. \<open>get_memory_usage\<close> runs the loop body once on exactly this line,
  between the lines before it and the lines after it. If the line, read up to a NUL
  byte if it holds one, has the shape of a token and a number, the token is one of
  \<open>VmSize:\<close>, \<open>VmRSS:\<close>, \<open>VmData:\<close>, \<open>VmStk:\<close>, colon included, and the number
  fits a \<open>long\<close>, the loop body stores the number in the field of the token. And
  the loop body changes the record only on such a line. What follows the digits,
  \<open>kB\<close> or something else or nothing, is not looked at. So a line with no colon in
  the key, with no number after the key or with an unrecognised key leaves every
  field at its prior value.
\<close>

theorem get_memory_usage_line_update:
  assumes "fopen sys (status_path pid) = Some bytes"
    and "record_lines bytes = before @ line # after"
    and "length line \<le> 255"
  shows "get_memory_usage sys pid =
      (case read_status mem_zero (concat before) of
         Inl e \<Rightarrow> Inl e
       | Inr m \<Rightarrow>
           (case process_line m line of
              Inl e \<Rightarrow> Inl e
            | Inr m' \<Rightarrow> read_status m' (concat after)))
    \<and> (\<forall>m ws key ws' sg ds rest.
          cstr line = ws @ key @ ws' @ sg @ ds @ rest
          \<and> key_value_shape ws key ws' sg ds rest
          \<and> LONG_MIN \<le> signed_value (sg = ''-'') ds
          \<and> signed_value (sg = ''-'') ds \<le> LONG_MAX \<longrightarrow>
            (key = ''VmSize:'' \<longrightarrow>
               process_line m line = Inr (m\<lparr>vm_size := signed_value (sg = ''-'') ds\<rparr>))
          \<and> (key = ''VmRSS:'' \<longrightarrow>
               process_line m line = Inr (m\<lparr>vm_rss := signed_value (sg = ''-'') ds\<rparr>))
          \<and> (key = ''VmData:'' \<longrightarrow>
               process_line m line = Inr (m\<lparr>vm_data := signed_value (sg = ''-'') ds\<rparr>))
          \<and> (key = ''VmStk:'' \<longrightarrow>
               process_line m line = Inr (m\<lparr>vm_stack := signed_value (sg = ''-'') ds\<rparr>)))
    \<and> (\<forall>m m'. process_line m line = Inr m' \<and> m' \<noteq> m \<longrightarrow>
          (\<exists>ws key ws' sg ds rest.
             cstr line = ws @ key @ ws' @ sg @ ds @ rest
             \<and> key_value_shape ws key ws' sg ds rest
             \<and> key \<in> {''VmSize:'', ''VmRSS:'', ''VmData:'', ''VmStk:''}))"
proof (intro conjI)
  from assms show "get_memory_usage sys pid =
      (case read_status mem_zero (concat before) of
         Inl e \<Rightarrow> Inl e
       | Inr m \<Rightarrow>
           (case process_line m line of
              Inl e \<Rightarrow> Inl e
            | Inr m' \<Rightarrow> read_status m' (concat after)))"
    by (simp add: get_memory_usage_def read_status_record_line)
next
  show "\<forall>m ws key ws' sg ds rest.
          cstr line = ws @ key @ ws' @ sg @ ds @ rest
          \<and> key_value_shape ws key ws' sg ds rest
          \<and> LONG_MIN \<le> signed_value (sg = ''-'') ds
          \<and> signed_value (sg = ''-'') ds \<le> LONG_MAX \<longrightarrow>
            (key = ''VmSize:'' \<longrightarrow>
               process_line m line = Inr (m\<lparr>vm_size := signed_value (sg = ''-'') ds\<rparr>))
          \<and> (key = ''VmRSS:'' \<longrightarrow>
               process_line m line = Inr (m\<lparr>vm_rss := signed_value (sg = ''-'') ds\<rparr>))
          \<and> (key = ''VmData:'' \<longrightarrow>
               process_line m line = Inr (m\<lparr>vm_data := signed_value (sg = ''-'') ds\<rparr>))
          \<and> (key = ''VmStk:'' \<longrightarrow>
               process_line m line = Inr (m\<lparr>vm_stack := signed_value (sg = ''-'') ds\<rparr>))"
  proof (intro allI impI)
    fix m ws key ws' sg ds rest
    assume h: "cstr line = ws @ key @ ws' @ sg @ ds @ rest
          \<and> key_value_shape ws key ws' sg ds rest
          \<and> LONG_MIN \<le> signed_value (sg = ''-'') ds
          \<and> signed_value (sg = ''-'') ds \<le> LONG_MAX"
    then have scan: "sscanf_s_ld_kB line =
      (if 64 \<le> length key then Inl KeyOverflow
       else Inr (Scanned_2 key (signed_value (sg = ''-'') ds)))"
      by (simp add: sscanf_complete)
    show "(key = ''VmSize:'' \<longrightarrow>
               process_line m line = Inr (m\<lparr>vm_size := signed_value (sg = ''-'') ds\<rparr>))
          \<and> (key = ''VmRSS:'' \<longrightarrow>
               process_line m line = Inr (m\<lparr>vm_rss := signed_value (sg = ''-'') ds\<rparr>))
          \<and> (key = ''VmData:'' \<longrightarrow>
               process_line m line = Inr (m\<lparr>vm_data := signed_value (sg = ''-'') ds\<rparr>))
          \<and> (key = ''VmStk:'' \<longrightarrow>
               process_line m line = Inr (m\<lparr>vm_stack := signed_value (sg = ''-'') ds\<rparr>))"
      by (auto simp: process_line_def scan)
  qed
next
  show "\<forall>m m'. process_line m line = Inr m' \<and> m' \<noteq> m \<longrightarrow>
          (\<exists>ws key ws' sg ds rest.
             cstr line = ws @ key @ ws' @ sg @ ds @ rest
             \<and> key_value_shape ws key ws' sg ds rest
             \<and> key \<in> {''VmSize:'', ''VmRSS:'', ''VmData:'', ''VmStk:''})"
  proof (intro allI impI)
    fix m m'
    assume "process_line m line = Inr m' \<and> m' \<noteq> m"
    then obtain key v where scan: "sscanf_s_ld_kB line = Inr (Scanned_2 key v)"
      and key: "key \<in> {''VmSize:'', ''VmRSS:'', ''VmData:'', ''VmStk:''}"
      by (auto simp: process_line_def split: sum.splits scanned.splits if_splits)
    from sscanf_sound [OF scan] key
    show "\<exists>ws key ws' sg ds rest.
             cstr line = ws @ key @ ws' @ sg @ ds @ rest
             \<and> key_value_shape ws key ws' sg ds rest
             \<and> key \<in> {''VmSize:'', ''VmRSS:'', ''VmData:'', ''VmStk:''}"
      by blast
  qed
qed

lemma status_real_record_lines:
  "record_lines status_real =
     [''Name:'' @ [CHR 0x09] @ ''node\<newline>'']
     @ (''VmSize:'' @ [CHR 0x09] @ ''    1200 kB\<newline>'')
     # [''VmRSS:'' @ [CHR 0x09] @ ''     340 kB\<newline>'',
        ''Cpus_allowed_list:'' @ [CHR 0x09] @ ''0-3\<newline>'']"
  by (simp add: status_real_def NL_def)

lemma status_real_lines:
  "status_lines status_real =
     [''Name:'' @ [CHR 0x09] @ ''node\<newline>'',
      ''VmSize:'' @ [CHR 0x09] @ ''    1200 kB\<newline>'',
      ''VmRSS:'' @ [CHR 0x09] @ ''     340 kB\<newline>'',
      ''Cpus_allowed_list:'' @ [CHR 0x09] @ ''0-3\<newline>'']"
  by (simp add: status_real_def status_lines.simps fgets_def NL_def)

lemma status_real_mem:
  "get_memory_usage (sys_status status_real) 7 =
     Inr \<lparr>vm_size = 1200, vm_rss = 340, vm_data = 0, vm_stack = 0\<rparr>"
  by (simp add: sys_status_def get_memory_usage_def read_status_lines status_real_lines
      mem_zero_def scan_eval)

lemma status_real_opened: "fopen (sys_status status_real) (status_path 7) = Some status_real"
  by (simp add: sys_status_def)

theorem get_memory_usage_line_update_witness:
  "record_lines status_real =
     [''Name:'' @ [CHR 0x09] @ ''node\<newline>'']
     @ (''VmSize:'' @ [CHR 0x09] @ ''    1200 kB\<newline>'')
     # [''VmRSS:'' @ [CHR 0x09] @ ''     340 kB\<newline>'',
        ''Cpus_allowed_list:'' @ [CHR 0x09] @ ''0-3\<newline>'']
   \<and> length (''VmSize:'' @ [CHR 0x09] @ ''    1200 kB\<newline>'') \<le> 255
   \<and> key_value_shape [] ''VmSize:'' ([CHR 0x09] @ ''    '') [] ''1200'' '' kB\<newline>''
   \<and> process_line mem_zero (''VmSize:'' @ [CHR 0x09] @ ''    1200 kB\<newline>'')
       = Inr (mem_zero\<lparr>vm_size := 1200\<rparr>)
   \<and> get_memory_usage (sys_status status_real) 7
       = (case read_status mem_zero (concat [''Name:'' @ [CHR 0x09] @ ''node\<newline>'']) of
            Inl e \<Rightarrow> Inl e
          | Inr m \<Rightarrow>
              (case process_line m (''VmSize:'' @ [CHR 0x09] @ ''    1200 kB\<newline>'') of
                 Inl e \<Rightarrow> Inl e
               | Inr m' \<Rightarrow>
                   read_status m'
                     (concat [''VmRSS:'' @ [CHR 0x09] @ ''     340 kB\<newline>'',
                        ''Cpus_allowed_list:'' @ [CHR 0x09] @ ''0-3\<newline>''])))
   \<and> get_memory_usage (sys_status status_real) 7
       = Inr \<lparr>vm_size = 1200, vm_rss = 340, vm_data = 0, vm_stack = 0\<rparr>
   \<and> (\<exists>ws key ws' sg ds rest.
         cstr (''VmSize:'' @ [CHR 0x09] @ ''    1200 kB\<newline>'') = ws @ key @ ws' @ sg @ ds @ rest
         \<and> key_value_shape ws key ws' sg ds rest
         \<and> key \<in> {''VmSize:'', ''VmRSS:'', ''VmData:'', ''VmStk:''})"
proof -
  let ?line = "''VmSize:'' @ [CHR 0x09] @ ''    1200 kB\<newline>''"
  have len: "length ?line \<le> 255"
    by simp
  have parts: "cstr ?line = [] @ ''VmSize:'' @ ([CHR 0x09] @ ''    '') @ [] @ ''1200'' @ '' kB\<newline>''"
    by (simp add: cstr_def NUL_def)
  have shape: "key_value_shape [] ''VmSize:'' ([CHR 0x09] @ ''    '') [] ''1200'' '' kB\<newline>''"
    by (simp add: key_value_shape_def isspace_def isdigit_def)
  have range: "LONG_MIN \<le> signed_value ([] = ''-'') ''1200''"
    "signed_value ([] = ''-'') ''1200'' \<le> LONG_MAX"
    by (simp_all add: signed_value_def digit_value_def LONG_MIN_def LONG_MAX_def)
  note upd = get_memory_usage_line_update [OF status_real_opened status_real_record_lines len]
  from upd [THEN conjunct2, THEN conjunct1, rule_format,
      of "[]" "''VmSize:''" "[CHR 0x09] @ ''    ''" "[]" "''1200''" "'' kB\<newline>''" mem_zero]
    parts shape range
  have stored: "process_line mem_zero ?line = Inr (mem_zero\<lparr>vm_size := 1200\<rparr>)"
    by (simp add: signed_value_def digit_value_def)
  have changed: "mem_zero\<lparr>vm_size := 1200\<rparr> \<noteq> mem_zero"
    by (simp add: mem_zero_def)
  from upd [THEN conjunct2, THEN conjunct2, rule_format, of mem_zero "mem_zero\<lparr>vm_size := 1200\<rparr>"]
    stored changed
  have ex: "\<exists>ws key ws' sg ds rest.
         cstr ?line = ws @ key @ ws' @ sg @ ds @ rest
         \<and> key_value_shape ws key ws' sg ds rest
         \<and> key \<in> {''VmSize:'', ''VmRSS:'', ''VmData:'', ''VmStk:''}"
    by blast
  have tie: "get_memory_usage (sys_status status_real) 7
       = (case read_status mem_zero (concat [''Name:'' @ [CHR 0x09] @ ''node\<newline>'']) of
            Inl e \<Rightarrow> Inl e
          | Inr m \<Rightarrow>
              (case process_line m ?line of
                 Inl e \<Rightarrow> Inl e
               | Inr m' \<Rightarrow>
                   read_status m'
                     (concat [''VmRSS:'' @ [CHR 0x09] @ ''     340 kB\<newline>'',
                        ''Cpus_allowed_list:'' @ [CHR 0x09] @ ''0-3\<newline>''])))"
    by (rule upd [THEN conjunct1])
  from status_real_record_lines len shape stored tie status_real_mem ex show ?thesis
    by (intro conjI)
qed

text \<open>
  C1 as stated fails: a line without the \<open>kB\<close> suffix sets \<open>vm_size\<close>.
\<close>

theorem process_line_without_kB_counterexample:
  "\<not> sublist ''kB'' ''VmSize: 1234''
   \<and> process_line mem_zero ''VmSize: 1234'' = Inr (mem_zero\<lparr>vm_size := 1234\<rparr>)
   \<and> mem_zero\<lparr>vm_size := 1234\<rparr> \<noteq> mem_zero"
  by (simp add: sublist_Cons_right prefix_code process_line_def sscanf_s_ld_kB_def cstr_def
      NUL_def isspace_def scan_sign_def isdigit_def signed_value_def digit_value_def
      LONG_MIN_def LONG_MAX_def mem_zero_def)

lemma process_line_keeps:
  assumes "process_line mem l = Inr mem'" and "\<not> assigns key l"
  shows "(key = ''VmSize:'' \<longrightarrow> vm_size mem' = vm_size mem)
    \<and> (key = ''VmRSS:'' \<longrightarrow> vm_rss mem' = vm_rss mem)
    \<and> (key = ''VmData:'' \<longrightarrow> vm_data mem' = vm_data mem)
    \<and> (key = ''VmStk:'' \<longrightarrow> vm_stack mem' = vm_stack mem)"
  using assms
  by (auto simp: process_line_def assigns_def split: sum.splits scanned.splits if_splits)

lemma process_lines_keeps:
  assumes "process_lines mem ls = Inr mem'" and "\<forall>l\<in>set ls. \<not> assigns key l"
  shows "(key = ''VmSize:'' \<longrightarrow> vm_size mem' = vm_size mem)
    \<and> (key = ''VmRSS:'' \<longrightarrow> vm_rss mem' = vm_rss mem)
    \<and> (key = ''VmData:'' \<longrightarrow> vm_data mem' = vm_data mem)
    \<and> (key = ''VmStk:'' \<longrightarrow> vm_stack mem' = vm_stack mem)"
  using assms
proof (induction ls arbitrary: mem)
  case Nil
  then show ?case by simp
next
  case (Cons l ls)
  from Cons.prems(1) obtain m where m: "process_line mem l = Inr m" "process_lines m ls = Inr mem'"
    by (auto split: sum.splits)
  from Cons.prems(2) have here: "\<not> assigns key l" and rest: "\<forall>l\<in>set ls. \<not> assigns key l"
    by simp_all
  from m(1) here have "(key = ''VmSize:'' \<longrightarrow> vm_size m = vm_size mem)
    \<and> (key = ''VmRSS:'' \<longrightarrow> vm_rss m = vm_rss mem)
    \<and> (key = ''VmData:'' \<longrightarrow> vm_data m = vm_data mem)
    \<and> (key = ''VmStk:'' \<longrightarrow> vm_stack m = vm_stack mem)"
    by (rule process_line_keeps)
  with Cons.IH [OF m(2) rest] show ?case
    by simp
qed

lemma process_line_stores:
  assumes "process_line mem l = Inr mem'" and "sscanf_s_ld_kB l = Inr (Scanned_2 key v)"
  shows "(key = ''VmSize:'' \<longrightarrow> vm_size mem' = v)
    \<and> (key = ''VmRSS:'' \<longrightarrow> vm_rss mem' = v)
    \<and> (key = ''VmData:'' \<longrightarrow> vm_data mem' = v)
    \<and> (key = ''VmStk:'' \<longrightarrow> vm_stack mem' = v)"
  using assms by (auto simp: process_line_def)

text \<open>
  C6, as amended. When a line of the status record of at most 255 bytes, newline
  included, stores a value under a recognised key, and none of the buffers that
  \<open>fgets\<close> delivers after it stores one under the same key, the field of that key
  in the record that \<open>get_memory_usage\<close> returns holds that value. The buffers after
  the line are the later lines themselves when these have at most 255 bytes each.
\<close>

theorem get_memory_usage_last_line_wins:
  assumes "fopen sys (status_path pid) = Some bytes"
    and "get_memory_usage sys pid = Inr mem"
    and "record_lines bytes = before @ line # after"
    and "length line \<le> 255"
    and "sscanf_s_ld_kB line = Inr (Scanned_2 key v)"
    and "\<forall>l\<in>set (status_lines (concat after)). \<not> assigns key l"
  shows "((key = ''VmSize:'' \<longrightarrow> vm_size mem = v)
      \<and> (key = ''VmRSS:'' \<longrightarrow> vm_rss mem = v)
      \<and> (key = ''VmData:'' \<longrightarrow> vm_data mem = v)
      \<and> (key = ''VmStk:'' \<longrightarrow> vm_stack mem = v))
    \<and> ((\<forall>l\<in>set after. length l \<le> 255) \<longrightarrow> status_lines (concat after) = after)"
proof
  from assms(1,2) have "process_lines mem_zero (status_lines bytes) = Inr mem"
    by (simp add: get_memory_usage_def read_status_lines)
  then have "process_lines mem_zero
      (status_lines (concat before) @ line # status_lines (concat after)) = Inr mem"
    by (simp add: status_lines_record_line [OF assms(3,4)])
  then obtain m1 m2 where m2: "process_line m1 line = Inr m2"
    and m3: "process_lines m2 (status_lines (concat after)) = Inr mem"
    by (auto simp: process_lines_append split: sum.splits)
  from process_line_stores [OF m2 assms(5)] process_lines_keeps [OF m3 assms(6)]
  show "(key = ''VmSize:'' \<longrightarrow> vm_size mem = v)
      \<and> (key = ''VmRSS:'' \<longrightarrow> vm_rss mem = v)
      \<and> (key = ''VmData:'' \<longrightarrow> vm_data mem = v)
      \<and> (key = ''VmStk:'' \<longrightarrow> vm_stack mem = v)"
    by simp
next
  have "well_cut (before @ line # after)"
    using well_cut_record_lines [of bytes] assms(3) by simp
  then have "well_cut (line # after)"
    by (rule well_cut_append)
  then have "well_cut after"
    by (rule well_cut_tail)
  then show "(\<forall>l\<in>set after. length l \<le> 255) \<longrightarrow> status_lines (concat after) = after"
    by (simp add: status_lines_short)
qed

lemma status_twice_lines:
  "status_lines status_twice =
     [''VmSize: 1 kB\<newline>'', ''VmRSS: 3 kB\<newline>''] @ ''VmSize: 2 kB\<newline>'' # [''VmData: 4 kB\<newline>'']"
  by (simp add: status_twice_def status_lines.simps fgets_def NL_def)

theorem get_memory_usage_last_line_wins_witness:
  "record_lines status_twice =
     [''VmSize: 1 kB\<newline>'', ''VmRSS: 3 kB\<newline>''] @ ''VmSize: 2 kB\<newline>'' # [''VmData: 4 kB\<newline>'']
   \<and> length ''VmSize: 2 kB\<newline>'' \<le> 255
   \<and> sscanf_s_ld_kB ''VmSize: 1 kB\<newline>'' = Inr (Scanned_2 ''VmSize:'' 1)
   \<and> sscanf_s_ld_kB ''VmSize: 2 kB\<newline>'' = Inr (Scanned_2 ''VmSize:'' 2)
   \<and> status_lines (concat [''VmData: 4 kB\<newline>'']) = [''VmData: 4 kB\<newline>'']
   \<and> \<not> assigns ''VmSize:'' ''VmData: 4 kB\<newline>''
   \<and> get_memory_usage (sys_status status_twice) 7 =
       Inr \<lparr>vm_size = 2, vm_rss = 3, vm_data = 4, vm_stack = 0\<rparr>
   \<and> vm_size \<lparr>vm_size = 2, vm_rss = 3, vm_data = 4, vm_stack = 0\<rparr> = 2"
proof -
  have opened: "fopen (sys_status status_twice) (status_path 7) = Some status_twice"
    by (simp add: sys_status_def)
  have lines: "record_lines status_twice =
     [''VmSize: 1 kB\<newline>'', ''VmRSS: 3 kB\<newline>''] @ ''VmSize: 2 kB\<newline>'' # [''VmData: 4 kB\<newline>'']"
    by (simp add: status_twice_def NL_def)
  have mem: "get_memory_usage (sys_status status_twice) 7 =
       Inr \<lparr>vm_size = 2, vm_rss = 3, vm_data = 4, vm_stack = 0\<rparr>"
    by (simp add: sys_status_def get_memory_usage_def read_status_lines status_twice_lines
        mem_zero_def scan_eval)
  have len: "length ''VmSize: 2 kB\<newline>'' \<le> 255"
    by simp
  have first: "sscanf_s_ld_kB ''VmSize: 1 kB\<newline>'' = Inr (Scanned_2 ''VmSize:'' 1)"
    by (simp add: scan_eval)
  have last: "sscanf_s_ld_kB ''VmSize: 2 kB\<newline>'' = Inr (Scanned_2 ''VmSize:'' 2)"
    by (simp add: scan_eval)
  have pieces: "status_lines (concat [''VmData: 4 kB\<newline>'']) = [''VmData: 4 kB\<newline>'']"
    by (simp add: status_lines.simps fgets_def NL_def)
  have none: "\<not> assigns ''VmSize:'' ''VmData: 4 kB\<newline>''"
    by (simp add: assigns_def scan_eval)
  from pieces none
  have later: "\<forall>l\<in>set (status_lines (concat [''VmData: 4 kB\<newline>''])). \<not> assigns ''VmSize:'' l"
    by simp
  from get_memory_usage_last_line_wins [OF opened mem lines len last later]
  have "vm_size \<lparr>vm_size = 2, vm_rss = 3, vm_data = 4, vm_stack = 0\<rparr> = 2"
    by simp
  with lines len first last pieces none mem show ?thesis
    by (intro conjI)
qed

lemma record_lines_line:
  assumes "l \<noteq> []" and "NL \<notin> set (butlast l)" and "last l = NL \<or> t = []"
  shows "record_lines (l @ t) = l # record_lines t"
  using assms
proof (induction l)
  case Nil
  then show ?case by simp
next
  case (Cons c l)
  show ?case
  proof (cases "l = []")
    case True
    with Cons.prems show ?thesis
      by auto
  next
    case False
    with Cons.prems have "c \<noteq> NL" "NL \<notin> set (butlast l)" "last l = NL \<or> t = []"
      by auto
    with Cons.IH False show ?thesis
      by simp
  qed
qed

lemma fgets_take_full:
  assumes "NL \<notin> set p" and "length p = k"
  shows "fgets_take k (p @ t) = (p, t)"
  using assms
proof (induction p arbitrary: k)
  case Nil
  then show ?case by (cases t) simp_all
next
  case (Cons c p)
  then have "fgets_take (k - 1) (p @ t) = (p, t)"
    by auto
  with Cons.prems show ?case
    by auto
qed

lemma status_lines_full:
  assumes "NL \<notin> set p" and "length p = 255"
  shows "status_lines (p @ t) = p # status_lines t"
proof -
  from assms(2) have "p @ t \<noteq> []"
    by auto
  with fgets_take_full [OF assms(1), of 255 t] assms(2) show ?thesis
    by (simp add: status_lines.simps [of "p @ t"] fgets_def)
qed

lemma long_line_pieces:
  "long_line = (replicate 244 (CHR '' '') @ ''VmSize: 123'') @ ''4567 kB\<newline>''"
  by (simp add: long_line_def)

lemma status_long_line_record_lines:
  "record_lines status_long_line = [''VmSize: 5 kB\<newline>'', long_line]"
proof -
  have "record_lines (long_line @ []) = long_line # record_lines []"
    by (rule record_lines_line) (simp_all add: long_line_def butlast_append NL_def)
  moreover have "record_lines (''VmSize: 5 kB\<newline>'' @ long_line)
      = ''VmSize: 5 kB\<newline>'' # record_lines long_line"
    by (rule record_lines_line) (simp_all add: NL_def)
  ultimately show ?thesis
    by (simp add: status_long_line_def)
qed

lemma status_long_line_lines:
  "status_lines status_long_line =
     [''VmSize: 5 kB\<newline>'', replicate 244 (CHR '' '') @ ''VmSize: 123'', ''4567 kB\<newline>'']"
proof -
  have one: "status_lines (''VmSize: 5 kB\<newline>'' @ long_line)
      = ''VmSize: 5 kB\<newline>'' # status_lines long_line"
    by (rule status_lines_line) (simp_all add: NL_def)
  have two: "status_lines ((replicate 244 (CHR '' '') @ ''VmSize: 123'') @ ''4567 kB\<newline>'')
      = (replicate 244 (CHR '' '') @ ''VmSize: 123'') # status_lines ''4567 kB\<newline>''"
    by (rule status_lines_full) (simp_all add: NL_def)
  have three: "status_lines ''4567 kB\<newline>'' = [''4567 kB\<newline>'']"
    by (simp add: status_lines.simps fgets_def NL_def)
  from one two three show ?thesis
    by (simp add: status_long_line_def long_line_pieces)
qed

lemma pad_space: "list_all isspace (replicate 244 (CHR '' ''))"
  by (simp add: list_all_iff isspace_def)

lemma pad_cstr: "cstr (replicate 244 (CHR '' '') @ s) = replicate 244 (CHR '' '') @ cstr s"
  unfolding cstr_def by (rule takeWhile_all) (simp add: list_all_iff NUL_def)

lemma cut_piece_scan:
  "sscanf_s_ld_kB (replicate 244 (CHR '' '') @ ''VmSize: 123'') = Inr (Scanned_2 ''VmSize:'' 123)"
proof -
  have parts: "cstr (replicate 244 (CHR '' '') @ ''VmSize: 123'')
      = replicate 244 (CHR '' '') @ ''VmSize:'' @ '' '' @ [] @ ''123'' @ []"
    by (simp add: pad_cstr) (simp add: cstr_def NUL_def)
  have shape: "key_value_shape (replicate 244 (CHR '' '')) ''VmSize:'' '' '' [] ''123'' []"
    by (simp add: key_value_shape_def pad_space) (simp add: isspace_def isdigit_def)
  show ?thesis
    unfolding sscanf_complete [OF parts shape]
    by (simp add: signed_value_def digit_value_def LONG_MIN_def LONG_MAX_def)
qed

lemma long_line_scan: "sscanf_s_ld_kB long_line = Inr (Scanned_2 ''VmSize:'' 1234567)"
proof -
  have parts: "cstr long_line
      = replicate 244 (CHR '' '') @ ''VmSize:'' @ '' '' @ [] @ ''1234567'' @ '' kB\<newline>''"
    by (simp add: long_line_def pad_cstr) (simp add: cstr_def NUL_def)
  have shape: "key_value_shape (replicate 244 (CHR '' '')) ''VmSize:'' '' '' [] ''1234567''
      '' kB\<newline>''"
    by (simp add: key_value_shape_def pad_space) (simp add: isspace_def isdigit_def)
  show ?thesis
    unfolding sscanf_complete [OF parts shape]
    by (simp add: signed_value_def digit_value_def LONG_MIN_def LONG_MAX_def)
qed

text \<open>
  C6 as stated fails: the last line of the record that gives \<open>VmSize:\<close> says
  1234567, and \<open>get_memory_usage\<close> returns 123, because the buffer ends after the
  third digit.
\<close>

theorem get_memory_usage_long_line_counterexample:
  "record_lines status_long_line = [''VmSize: 5 kB\<newline>'', long_line]
   \<and> spec_final_value ''VmSize:'' status_long_line = Some 1234567
   \<and> get_memory_usage (sys_status status_long_line) 7 = Inr (mem_zero\<lparr>vm_size := 123\<rparr>)"
proof -
  have first: "sscanf_s_ld_kB ''VmSize: 5 kB\<newline>'' = Inr (Scanned_2 ''VmSize:'' 5)"
    by (simp add: scan_eval)
  have rest: "sscanf_s_ld_kB ''4567 kB\<newline>'' = Inr (Scanned_1 ''4567'')"
    by (simp add: scan_eval)
  have spec: "spec_final_value ''VmSize:'' status_long_line = Some 1234567"
    by (simp add: spec_final_value_def status_long_line_record_lines assigns_def first
        long_line_scan)
  have code: "get_memory_usage (sys_status status_long_line) 7 = Inr (mem_zero\<lparr>vm_size := 123\<rparr>)"
    by (simp add: sys_status_def get_memory_usage_def read_status_lines status_long_line_lines
        process_line_def first cut_piece_scan rest mem_zero_def)
  from status_long_line_record_lines spec code show ?thesis
    by (intro conjI)
qed

lemma stored_value:
  assumes "sscanf_s_ld_kB l = Inr (Scanned_2 key v)"
  shows "LONG_MIN \<le> v" and "v \<le> LONG_MAX"
  using assms
  by (auto simp: sscanf_s_ld_kB_def Let_def split: prod.splits if_splits)

lemma process_line_range:
  assumes "process_line mem l = Inr mem'"
    and "LONG_MIN \<le> vm_size mem \<and> vm_size mem \<le> LONG_MAX
      \<and> LONG_MIN \<le> vm_rss mem \<and> vm_rss mem \<le> LONG_MAX
      \<and> LONG_MIN \<le> vm_data mem \<and> vm_data mem \<le> LONG_MAX
      \<and> LONG_MIN \<le> vm_stack mem \<and> vm_stack mem \<le> LONG_MAX"
  shows "LONG_MIN \<le> vm_size mem' \<and> vm_size mem' \<le> LONG_MAX
      \<and> LONG_MIN \<le> vm_rss mem' \<and> vm_rss mem' \<le> LONG_MAX
      \<and> LONG_MIN \<le> vm_data mem' \<and> vm_data mem' \<le> LONG_MAX
      \<and> LONG_MIN \<le> vm_stack mem' \<and> vm_stack mem' \<le> LONG_MAX"
proof (cases "sscanf_s_ld_kB l")
  case (Inl e)
  with assms(1) show ?thesis
    by (simp add: process_line_def)
next
  case (Inr r)
  show ?thesis
  proof (cases r)
    case (Scanned_2 key v)
    with Inr have "LONG_MIN \<le> v" "v \<le> LONG_MAX"
      by (simp_all add: stored_value)
    with assms Inr Scanned_2 show ?thesis
      by (auto simp: process_line_def split: if_splits)
  qed (use assms Inr in \<open>auto simp: process_line_def\<close>)
qed

lemma process_lines_range:
  assumes "process_lines mem ls = Inr mem'"
    and "LONG_MIN \<le> vm_size mem \<and> vm_size mem \<le> LONG_MAX
      \<and> LONG_MIN \<le> vm_rss mem \<and> vm_rss mem \<le> LONG_MAX
      \<and> LONG_MIN \<le> vm_data mem \<and> vm_data mem \<le> LONG_MAX
      \<and> LONG_MIN \<le> vm_stack mem \<and> vm_stack mem \<le> LONG_MAX"
  shows "LONG_MIN \<le> vm_size mem' \<and> vm_size mem' \<le> LONG_MAX
      \<and> LONG_MIN \<le> vm_rss mem' \<and> vm_rss mem' \<le> LONG_MAX
      \<and> LONG_MIN \<le> vm_data mem' \<and> vm_data mem' \<le> LONG_MAX
      \<and> LONG_MIN \<le> vm_stack mem' \<and> vm_stack mem' \<le> LONG_MAX"
  using assms
proof (induction ls arbitrary: mem)
  case Nil
  then show ?case by simp
next
  case (Cons l ls)
  from Cons.prems(1) obtain m where m: "process_line mem l = Inr m" "process_lines m ls = Inr mem'"
    by (auto split: sum.splits)
  from m(1) Cons.prems(2) have "LONG_MIN \<le> vm_size m \<and> vm_size m \<le> LONG_MAX
      \<and> LONG_MIN \<le> vm_rss m \<and> vm_rss m \<le> LONG_MAX
      \<and> LONG_MIN \<le> vm_data m \<and> vm_data m \<le> LONG_MAX
      \<and> LONG_MIN \<le> vm_stack m \<and> vm_stack m \<le> LONG_MAX"
    by (rule process_line_range)
  with m(2) show ?case
    by (rule Cons.IH)
qed

lemma process_line_signs:
  assumes "process_line mem l = Inr mem'"
    and "\<not> stores_negative l"
    and "0 \<le> vm_size mem \<and> 0 \<le> vm_rss mem \<and> 0 \<le> vm_data mem \<and> 0 \<le> vm_stack mem"
  shows "0 \<le> vm_size mem' \<and> 0 \<le> vm_rss mem' \<and> 0 \<le> vm_data mem' \<and> 0 \<le> vm_stack mem'"
  using assms
  by (auto simp: process_line_def stores_negative_def split: sum.splits scanned.splits if_splits)

lemma process_lines_signs:
  assumes "process_lines mem ls = Inr mem'"
    and "\<forall>l\<in>set ls. \<not> stores_negative l"
    and "0 \<le> vm_size mem \<and> 0 \<le> vm_rss mem \<and> 0 \<le> vm_data mem \<and> 0 \<le> vm_stack mem"
  shows "0 \<le> vm_size mem' \<and> 0 \<le> vm_rss mem' \<and> 0 \<le> vm_data mem' \<and> 0 \<le> vm_stack mem'"
  using assms
proof (induction ls arbitrary: mem)
  case Nil
  then show ?case by simp
next
  case (Cons l ls)
  from Cons.prems(1) obtain m where m: "process_line mem l = Inr m" "process_lines m ls = Inr mem'"
    by (auto split: sum.splits)
  from Cons.prems(2) have here: "\<not> stores_negative l" and rest: "\<forall>l\<in>set ls. \<not> stores_negative l"
    by simp_all
  from m(1) here Cons.prems(3)
  have "0 \<le> vm_size m \<and> 0 \<le> vm_rss m \<and> 0 \<le> vm_data m \<and> 0 \<le> vm_stack m"
    by (rule process_line_signs)
  with m(2) rest show ?case
    by (rule Cons.IH)
qed

text \<open>
  C5, as amended. The record \<open>get_memory_usage\<close> starts from has all four fields
  zero. Every field of the record it returns is in the range of a \<open>long\<close>, and is
  non-negative when no buffer that \<open>fgets\<close> delivers from the status record gives a
  negative number under one of the four keys; for a record whose lines have at most
  255 bytes each, the buffers are its lines.
\<close>

theorem get_memory_usage_field_signs:
  assumes "get_memory_usage sys pid = Inr mem"
  shows "(vm_size mem_zero = 0 \<and> vm_rss mem_zero = 0 \<and> vm_data mem_zero = 0
          \<and> vm_stack mem_zero = 0)
    \<and> (LONG_MIN \<le> vm_size mem \<and> vm_size mem \<le> LONG_MAX
      \<and> LONG_MIN \<le> vm_rss mem \<and> vm_rss mem \<le> LONG_MAX
      \<and> LONG_MIN \<le> vm_data mem \<and> vm_data mem \<le> LONG_MAX
      \<and> LONG_MIN \<le> vm_stack mem \<and> vm_stack mem \<le> LONG_MAX)
    \<and> ((\<forall>bytes. fopen sys (status_path pid) = Some bytes \<longrightarrow>
           (\<forall>l\<in>set (status_lines bytes). \<not> stores_negative l)) \<longrightarrow>
          0 \<le> vm_size mem \<and> 0 \<le> vm_rss mem \<and> 0 \<le> vm_data mem \<and> 0 \<le> vm_stack mem)
    \<and> (\<forall>bytes. (\<forall>l\<in>set (record_lines bytes). length l \<le> 255) \<longrightarrow>
          status_lines bytes = record_lines bytes)"
proof (intro conjI impI allI)
  have zero_range: "LONG_MIN \<le> vm_size mem_zero \<and> vm_size mem_zero \<le> LONG_MAX
      \<and> LONG_MIN \<le> vm_rss mem_zero \<and> vm_rss mem_zero \<le> LONG_MAX
      \<and> LONG_MIN \<le> vm_data mem_zero \<and> vm_data mem_zero \<le> LONG_MAX
      \<and> LONG_MIN \<le> vm_stack mem_zero \<and> vm_stack mem_zero \<le> LONG_MAX"
    by (simp add: mem_zero_def LONG_MIN_def LONG_MAX_def)
  have range: "LONG_MIN \<le> vm_size mem \<and> vm_size mem \<le> LONG_MAX
      \<and> LONG_MIN \<le> vm_rss mem \<and> vm_rss mem \<le> LONG_MAX
      \<and> LONG_MIN \<le> vm_data mem \<and> vm_data mem \<le> LONG_MAX
      \<and> LONG_MIN \<le> vm_stack mem \<and> vm_stack mem \<le> LONG_MAX"
  proof (cases "fopen sys (status_path pid)")
    case None
    with assms zero_range show ?thesis
      by (simp add: get_memory_usage_def)
  next
    case (Some bytes)
    with assms have "process_lines mem_zero (status_lines bytes) = Inr mem"
      by (simp add: get_memory_usage_def read_status_lines)
    then show ?thesis
      using zero_range by (rule process_lines_range)
  qed
  from range show "LONG_MIN \<le> vm_size mem" "vm_size mem \<le> LONG_MAX"
    "LONG_MIN \<le> vm_rss mem" "vm_rss mem \<le> LONG_MAX"
    "LONG_MIN \<le> vm_data mem" "vm_data mem \<le> LONG_MAX"
    "LONG_MIN \<le> vm_stack mem" "vm_stack mem \<le> LONG_MAX"
    by simp_all
  show "vm_size mem_zero = 0" "vm_rss mem_zero = 0" "vm_data mem_zero = 0" "vm_stack mem_zero = 0"
    by (simp_all add: mem_zero_def)
  {
    fix bytes
    assume "\<forall>l\<in>set (record_lines bytes). length l \<le> 255"
    then show "status_lines bytes = record_lines bytes"
      using status_lines_short [OF well_cut_record_lines, of bytes]
      by (simp add: concat_record_lines)
  }
  assume plain: "\<forall>bytes. fopen sys (status_path pid) = Some bytes \<longrightarrow>
           (\<forall>l\<in>set (status_lines bytes). \<not> stores_negative l)"
  have zero_nonneg: "0 \<le> vm_size mem_zero \<and> 0 \<le> vm_rss mem_zero \<and> 0 \<le> vm_data mem_zero
      \<and> 0 \<le> vm_stack mem_zero"
    by (simp add: mem_zero_def)
  have "0 \<le> vm_size mem \<and> 0 \<le> vm_rss mem \<and> 0 \<le> vm_data mem \<and> 0 \<le> vm_stack mem"
  proof (cases "fopen sys (status_path pid)")
    case None
    with assms zero_nonneg show ?thesis
      by (simp add: get_memory_usage_def)
  next
    case (Some bytes)
    with assms have run: "process_lines mem_zero (status_lines bytes) = Inr mem"
      by (simp add: get_memory_usage_def read_status_lines)
    from plain Some have "\<forall>l\<in>set (status_lines bytes). \<not> stores_negative l"
      by simp
    with run show ?thesis
      using zero_nonneg by (rule process_lines_signs)
  qed
  then show "0 \<le> vm_size mem" "0 \<le> vm_rss mem" "0 \<le> vm_data mem" "0 \<le> vm_stack mem"
    by simp_all
qed

theorem get_memory_usage_field_signs_witness:
  "get_memory_usage (sys_status status_real) 7 =
     Inr \<lparr>vm_size = 1200, vm_rss = 340, vm_data = 0, vm_stack = 0\<rparr>
   \<and> CHR ''-'' \<in> set status_real
   \<and> status_lines status_real = record_lines status_real
   \<and> \<not> stores_negative (''Cpus_allowed_list:'' @ [CHR 0x09] @ ''0-3\<newline>'')
   \<and> 0 \<le> vm_size \<lparr>vm_size = 1200, vm_rss = 340, vm_data = 0, vm_stack = 0\<rparr>
   \<and> 0 \<le> vm_rss \<lparr>vm_size = 1200, vm_rss = 340, vm_data = 0, vm_stack = 0\<rparr>
   \<and> vm_size \<lparr>vm_size = 1200, vm_rss = 340, vm_data = 0, vm_stack = 0\<rparr> \<le> LONG_MAX"
proof -
  have minus: "CHR ''-'' \<in> set status_real"
    by (simp add: status_real_def)
  have short: "\<forall>l\<in>set (record_lines status_real). length l \<le> 255"
    by (simp add: status_real_record_lines)
  have plain: "\<forall>l\<in>set (status_lines status_real). \<not> stores_negative l"
    by (simp add: status_real_lines stores_negative_def scan_eval)
  then have cpus: "\<not> stores_negative (''Cpus_allowed_list:'' @ [CHR 0x09] @ ''0-3\<newline>'')"
    by (simp add: status_real_lines)
  from plain have hyp: "\<forall>bytes. fopen (sys_status status_real) (status_path 7) = Some bytes \<longrightarrow>
           (\<forall>l\<in>set (status_lines bytes). \<not> stores_negative l)"
    by (simp add: sys_status_def)
  note signs = get_memory_usage_field_signs [OF status_real_mem]
  from signs hyp
  have nonneg: "0 \<le> vm_size \<lparr>vm_size = 1200, vm_rss = 340, vm_data = 0, vm_stack = 0\<rparr>"
    "0 \<le> vm_rss \<lparr>vm_size = 1200, vm_rss = 340, vm_data = 0, vm_stack = 0\<rparr>"
    by blast+
  from signs have top: "vm_size \<lparr>vm_size = 1200, vm_rss = 340, vm_data = 0, vm_stack = 0\<rparr> \<le> LONG_MAX"
    by blast
  from signs short have same: "status_lines status_real = record_lines status_real"
    by blast
  from status_real_mem minus same cpus nonneg top show ?thesis
    by (intro conjI)
qed

text \<open>
  C5 as stated fails: \<open>%ld\<close> reads a sign, and a status record with a negative
  number under \<open>VmSize:\<close> gives a negative field.
\<close>

theorem get_memory_usage_negative_counterexample:
  "get_memory_usage \<lparr>proc_dir = None, fopen = (\<lambda>p. Some ''VmSize: -5 kB\<newline>''), d_name_after_closedir = Some\<rparr> 7
     = Inr (mem_zero\<lparr>vm_size := - 5\<rparr>)
   \<and> vm_size (mem_zero\<lparr>vm_size := - 5\<rparr>) < 0"
  by (simp add: get_memory_usage_def read_status.simps fgets_def NL_def mem_zero_def
      process_line_def sscanf_s_ld_kB_def cstr_def NUL_def isspace_def scan_sign_def
      isdigit_def signed_value_def digit_value_def LONG_MIN_def LONG_MAX_def)


section \<open>Properties of get\_node\_pid\<close>

lemma first_line_simps:
  "first_line [] = []"
  "first_line (NL # s) = [NL]"
  "c \<noteq> NL \<Longrightarrow> first_line (c # s) = c # first_line s"
  by (simp_all add: first_line_def)

lemma fgets_take_fst: "fst (fgets_take k s) = take k (first_line s)"
proof (induction k s rule: fgets_take.induct)
  case (1 k)
  show ?case by (simp add: first_line_simps)
next
  case (2 k c s)
  show ?case
  proof (cases "k = 0")
    case True
    then show ?thesis by simp
  next
    case False
    then obtain j where k: "k = Suc j"
      by (cases k) auto
    show ?thesis
    proof (cases "c = NL")
      case True
      then show ?thesis by (simp add: first_line_simps k)
    next
      case False
      with 2 k show ?thesis
        by (auto simp: first_line_simps split: prod.splits)
    qed
  qed
qed

lemma strstr_sublist: "strstr h n = None \<longleftrightarrow> \<not> sublist n h"
  by (induction h) (auto simp: sublist_Cons_right)

lemma strspn_all: "strspn d ''0123456789'' = strlen d \<longleftrightarrow> list_all isdigit d"
proof -
  have "length (takeWhile P d) = length d \<longleftrightarrow> list_all P d" for P :: "char \<Rightarrow> bool"
    by (induction d) auto
  then show ?thesis
    by (simp add: strspn_def strlen_def isdigit_def [abs_def])
qed

lemma fgets_examined:
  "fgets 1024 bytes = Some (cmdline, rest) \<Longrightarrow> cstr cmdline = examined_text bytes"
  using fgets_take_fst [of 1023 bytes]
  by (auto simp: fgets_def examined_text_def split: if_splits)

lemma examined_text_Nil: "examined_text [] = []"
  by (simp add: examined_text_def first_line_def cstr_def)

text \<open>The loop returns at the first matching entry, and \<open>- 1\<close> when there is none.\<close>

lemma scan_entries_find:
  "scan_entries sys entries =
     (case find (matching (fopen sys)) entries of
        None \<Rightarrow> Inr (- 1)
      | Some d \<Rightarrow>
          (case d_name_after_closedir sys d of
             None \<Rightarrow> Inl ReleasedName
           | Some name \<Rightarrow> atoi name))"
proof (induction entries)
  case Nil
  show ?case by simp
next
  case (Cons d entries)
  show ?case
  proof (cases "fopen sys (cmdline_path d)")
    case None
    with Cons show ?thesis
      by (simp add: matching_def strspn_all)
  next
    case (Some bytes)
    show ?thesis
    proof (cases "fgets 1024 bytes")
      case None
      then have "bytes = []"
        by (simp add: fgets_def split: if_splits)
      with Cons Some None show ?thesis
        by (simp add: matching_def strspn_all examined_text_Nil)
    next
      case fg: (Some p)
      obtain cmdline rest where p: "p = (cmdline, rest)"
        by (cases p)
      from fg p have "cstr cmdline = examined_text bytes"
        by (simp add: fgets_examined)
      with Cons Some fg p show ?thesis
        by (simp add: matching_def strspn_all strstr_sublist)
    qed
  qed
qed





lemma find_matching_None:
  "\<forall>d\<in>set entries. \<not> matching fo d \<Longrightarrow> find (matching fo) entries = None"
  by (simp add: find_None_iff)

text \<open>
  C9. When \<open>/proc\<close> cannot be opened, \<open>get_node_pid\<close> returns \<open>- 1\<close>, the value it
  also returns for a listing in which no entry matches.
\<close>

theorem get_node_pid_unopened_same_as_no_match:
  assumes "proc_dir sys = None"
    and "proc_dir sys' = Some entries"
    and "\<forall>d\<in>set entries. \<not> matching (fopen sys') d"
  shows "get_node_pid sys = Inr (- 1) \<and> get_node_pid sys' = get_node_pid sys"
  using assms by (simp add: get_node_pid_def scan_entries_find find_matching_None)

theorem get_node_pid_unopened_same_as_no_match_witness:
  "proc_dir \<lparr>proc_dir = None, fopen = (\<lambda>p. Some ''node''), d_name_after_closedir = Some\<rparr> = None
   \<and> proc_dir \<lparr>proc_dir = Some [''self'', ''1''], fopen = (\<lambda>p. Some ''/sbin/init''), d_name_after_closedir = Some\<rparr>
       = Some [''self'', ''1'']
   \<and> \<not> matching (\<lambda>p. Some ''/sbin/init'') ''self''
   \<and> \<not> matching (\<lambda>p. Some ''/sbin/init'') ''1''
   \<and> get_node_pid \<lparr>proc_dir = None, fopen = (\<lambda>p. Some ''node''), d_name_after_closedir = Some\<rparr> = Inr (- 1)
   \<and> get_node_pid \<lparr>proc_dir = Some [''self'', ''1''], fopen = (\<lambda>p. Some ''/sbin/init''), d_name_after_closedir = Some\<rparr>
       = get_node_pid \<lparr>proc_dir = None, fopen = (\<lambda>p. Some ''node''), d_name_after_closedir = Some\<rparr>"
proof -
  have no_match: "\<forall>d\<in>set [''self'', ''1'']. \<not> matching (\<lambda>p. Some ''/sbin/init'') d"
    by (simp add: matching_def isdigit_def examined_text_def first_line_def NL_def cstr_def
        NUL_def sublist_Cons_right prefix_code)
  show ?thesis
    using no_match
      get_node_pid_unopened_same_as_no_match
        [of "\<lparr>proc_dir = None, fopen = (\<lambda>p. Some ''node''), d_name_after_closedir = Some\<rparr>"
            "\<lparr>proc_dir = Some [''self'', ''1''], fopen = (\<lambda>p. Some ''/sbin/init''), d_name_after_closedir = Some\<rparr>"
            "[''self'', ''1'']"]
    by simp
qed

lemma cstr_fgets_take:
  "cstr (fst (fgets_take k (cstr s))) = cstr (fst (fgets_take k s))"
proof (induction k s rule: fgets_take.induct)
  case (1 k)
  show ?case by (simp add: cstr_def)
next
  case (2 k c s)
  show ?case
  proof (cases "c = NUL")
    case True
    then show ?thesis
      by (simp add: cstr_def NUL_def NL_def split: prod.splits)
  next
    case False
    with 2 show ?thesis
      by (auto simp: cstr_def split: prod.splits)
  qed
qed

lemma examined_text_cstr: "examined_text (cstr bytes) = examined_text bytes"
  using cstr_fgets_take [of 1023 bytes] by (simp add: fgets_take_fst examined_text_def)

lemma matching_cstr: "matching (\<lambda>p. map_option cstr (fo p)) d = matching fo d"
  by (simp add: matching_def examined_text_cstr split: option.splits)

lemma examined_text_prefix: "prefix (examined_text bytes) (cstr bytes)"
proof -
  have "prefix (cstr (take k (first_line s))) (cstr s)" for k s
  proof (induction s arbitrary: k)
    case Nil
    show ?case by (simp add: first_line_simps cstr_def)
  next
    case (Cons c s)
    show ?case
    proof (cases "c = NL")
      case True
      then show ?thesis
        by (cases k) (simp_all add: first_line_simps cstr_def)
    next
      case False
      with Cons show ?thesis
        by (cases k) (simp_all add: first_line_simps cstr_def)
    qed
  qed
  then show ?thesis
    by (simp add: examined_text_def)
qed

text \<open>
  C10. Only the bytes before the first NUL byte of a command-line record are examined:
  cutting every record at its first NUL byte leaves the result of \<open>get_node_pid\<close>
  unchanged, and when no record contains \<open>node\<close> before its first NUL byte the
  result is \<open>- 1\<close>, whatever follows the NUL bytes.
\<close>

theorem locator_scans_first_argument:
  "get_node_pid (sys\<lparr>fopen := \<lambda>p. map_option cstr (fopen sys p)\<rparr>) = get_node_pid sys
   \<and> ((\<forall>d bytes. fopen sys (cmdline_path d) = Some bytes \<longrightarrow> \<not> sublist ''node'' (cstr bytes))
        \<longrightarrow> get_node_pid sys = Inr (- 1))"
proof
  have "find (matching (\<lambda>p. map_option cstr (fopen sys p))) entries
      = find (matching (fopen sys)) entries" for entries
    by (rule find_cong) (simp_all add: matching_cstr)
  then show "get_node_pid (sys\<lparr>fopen := \<lambda>p. map_option cstr (fopen sys p)\<rparr>) = get_node_pid sys"
    by (simp add: get_node_pid_def scan_entries_find split: option.splits)
next
  show "(\<forall>d bytes. fopen sys (cmdline_path d) = Some bytes \<longrightarrow> \<not> sublist ''node'' (cstr bytes))
        \<longrightarrow> get_node_pid sys = Inr (- 1)"
  proof
    assume none: "\<forall>d bytes. fopen sys (cmdline_path d) = Some bytes \<longrightarrow> \<not> sublist ''node'' (cstr bytes)"
    have "\<not> matching (fopen sys) d" for d
    proof (cases "fopen sys (cmdline_path d)")
      case None
      then show ?thesis by (simp add: matching_def)
    next
      case (Some bytes)
      with none have "\<not> sublist ''node'' (cstr bytes)"
        by simp
      moreover have "sublist (examined_text bytes) (cstr bytes)"
        using examined_text_prefix by (rule prefix_imp_sublist)
      ultimately have "\<not> sublist ''node'' (examined_text bytes)"
        using sublist_order.order_trans by blast
      with Some show ?thesis by (simp add: matching_def)
    qed
    then have "find (matching (fopen sys)) entries = None" for entries
      by (simp add: find_None_iff)
    then show "get_node_pid sys = Inr (- 1)"
      by (simp add: get_node_pid_def scan_entries_find split: option.splits)
  qed
qed

theorem locator_scans_first_argument_witness:
  "sublist ''node'' (''python'' @ [NUL] @ ''node.py'' @ [NUL])
   \<and> \<not> sublist ''node'' (cstr (''python'' @ [NUL] @ ''node.py'' @ [NUL]))
   \<and> get_node_pid sys_second_arg = Inr (- 1)"
proof -
  have first: "\<not> sublist ''node'' (cstr (''python'' @ [NUL] @ ''node.py'' @ [NUL]))"
    by (simp add: cstr_def NUL_def sublist_Cons_right prefix_code)
  have hyp: "\<forall>d bytes. fopen sys_second_arg (cmdline_path d) = Some bytes
      \<longrightarrow> \<not> sublist ''node'' (cstr bytes)"
    using first by (auto simp: sys_second_arg_def split: if_splits)
  have whole: "sublist ''node'' (''python'' @ [NUL] @ ''node.py'' @ [NUL])"
    by (simp add: NUL_def sublist_Cons_right prefix_code)
  from hyp locator_scans_first_argument [of sys_second_arg]
  have "get_node_pid sys_second_arg = Inr (- 1)"
    by blast
  with whole first show ?thesis
    by (intro conjI)
qed


section \<open>Properties of display\_memory and main\<close>

text \<open>Printing a number and reading the digits back gives the number.\<close>

lemma digit_char:
  assumes "k < 10"
  shows "isdigit (char_of (48 + k))" and "digit_value (char_of (48 + k)) = k"
proof -
  from assms have "k \<in> {0, 1, 2, 3, 4, 5, 6, 7, 8, 9}"
    by auto
  then show "isdigit (char_of (48 + k))"
    by (auto simp: isdigit_def char_of_eq_iff)
  from assms show "digit_value (char_of (48 + k)) = k"
    by (simp add: digit_value_def)
qed

lemma decimal_append: "decimal acc (xs @ ys) = decimal (decimal acc xs) ys"
  by (induction xs arbitrary: acc) simp_all

lemma decimal_digits_of: "decimal 0 (digits_of n) = n"
proof (induction n rule: digits_of.induct)
  case (1 n)
  show ?case
  proof (cases "n < 10")
    case True
    then show ?thesis
      by (subst digits_of.simps) (simp add: digit_char)
  next
    case False
    with 1 have "decimal 0 (digits_of (n div 10)) = n div 10"
      by simp
    with False show ?thesis
      by (subst digits_of.simps) (simp add: decimal_append digit_char)
  qed
qed

lemma isdigit_digits_of: "list_all isdigit (digits_of n)"
proof (induction n rule: digits_of.induct)
  case (1 n)
  show ?case
  proof (cases "n < 10")
    case True
    then show ?thesis
      by (subst digits_of.simps) (simp add: digit_char)
  next
    case False
    with 1 have "list_all isdigit (digits_of (n div 10))"
      by simp
    with False show ?thesis
      by (subst digits_of.simps) (simp add: digit_char)
  qed
qed

text \<open>Rounding to the nearest integer is off by at most one half.\<close>

lemma round_half_even_near:
  assumes "0 < d"
  shows "\<bar>2 * (round_half_even n d * d - n)\<bar> \<le> d"
proof -
  define q r where "q = n div d" and "r = n mod d"
  have n: "n = q * d + r"
    by (simp add: q_def r_def)
  from assms have r: "0 \<le> r" "r < d"
    by (simp_all add: r_def)
  have "round_half_even n d = q \<and> 2 * r \<le> d \<or> round_half_even n d = q + 1 \<and> d \<le> 2 * r"
    by (auto simp: round_half_even_def Let_def q_def r_def)
  then show ?thesis
  proof
    assume "round_half_even n d = q \<and> 2 * r \<le> d"
    with n r show ?thesis by simp
  next
    assume "round_half_even n d = q + 1 \<and> d \<le> 2 * r"
    with n r show ?thesis by (simp add: algebra_simps)
  qed
qed

lemma round_half_even_nonneg:
  assumes "0 < d" and "0 \<le> n"
  shows "0 \<le> round_half_even n d"
proof -
  from assms have "0 \<le> n div d"
    by (simp add: pos_imp_zdiv_nonneg_iff)
  then show ?thesis
    by (simp add: round_half_even_def Let_def)
qed

lemma hundredths_near:
  "\<bar>real (hundredths n 1024) / 100 - \<bar>real_of_int n\<bar> / 1024\<bar> \<le> 1 / 200"
proof -
  define h where "h = round_half_even (\<bar>n\<bar> * 100) 1024"
  have "0 \<le> h"
    unfolding h_def by (rule round_half_even_nonneg) simp_all
  then have hn: "real (hundredths n 1024) = real_of_int h"
    by (simp add: hundredths_def h_def)
  have "\<bar>2 * (h * 1024 - \<bar>n\<bar> * 100)\<bar> \<le> 1024"
    unfolding h_def by (rule round_half_even_near) simp
  then have "\<bar>real_of_int (2 * (h * 1024 - \<bar>n\<bar> * 100))\<bar> \<le> 1024"
    by linarith
  then have "\<bar>real_of_int h * 1024 - \<bar>real_of_int n\<bar> * 100\<bar> \<le> 512"
    by simp
  then show ?thesis
    unfolding hn by (simp add: field_simps abs_if split: if_splits)
qed

lemma bit_length_bound: "n < 2 ^ k \<Longrightarrow> bit_length n \<le> k"
proof (induction k arbitrary: n)
  case 0
  then show ?case by (simp add: bit_length.simps)
next
  case (Suc k)
  then have "n div 2 < 2 ^ k"
    by simp
  then have "bit_length (n div 2) \<le> k"
    by (rule Suc.IH)
  then show ?case
    by (subst bit_length.simps) simp
qed

lemma long_to_double_exact:
  assumes "\<bar>v\<bar> < 2 ^ 53"
  shows "long_to_double v = v"
proof -
  from assms have "nat \<bar>v\<bar> < 2 ^ 53"
    by (simp add: nat_less_iff)
  then have "bit_length (nat \<bar>v\<bar>) \<le> 53"
    by (rule bit_length_bound)
  then show ?thesis
    by (simp add: long_to_double_def round_half_even_def)
qed

lemma two_digits: "(h::nat) mod 100 div 10 * 10 + h mod 10 = h mod 100"
proof -
  have "h mod 10 = h mod 100 mod 10"
    by (simp add: mod_mod_cancel)
  then show ?thesis
    by simp
qed

lemma print_f2_parts:
  "\<exists>ip fp. print_f2 n 1024 = (if n < 0 then ''-'' else []) @ ip @ ''.'' @ fp
     \<and> length fp = 2 \<and> list_all isdigit (ip @ fp)
     \<and> \<bar>real (decimal 0 ip) + real (decimal 0 fp) / 100 - \<bar>real_of_int n\<bar> / 1024\<bar> \<le> 1 / 200"
proof -
  define h where "h = hundredths n 1024"
  define ip where "ip = digits_of (h div 100)"
  define fp where "fp = [char_of (48 + h mod 100 div 10), char_of (48 + h mod 10)]"
  have lt: "h mod 100 div 10 < 10" "h mod 10 < 10"
    by simp_all
  have "decimal 0 fp = h mod 100 div 10 * 10 + h mod 10"
    unfolding fp_def using lt by (simp add: digit_char)
  then have fp: "decimal 0 fp = h mod 100"
    by (simp only: two_digits)
  have ip: "decimal 0 ip = h div 100"
    by (simp add: ip_def decimal_digits_of)
  have "h div 100 * 100 + h mod 100 = h"
    by simp
  then have "real (h div 100) * 100 + real (h mod 100) = real h"
    by (metis of_nat_add of_nat_mult of_nat_numeral)
  then have val: "real (decimal 0 ip) + real (decimal 0 fp) / 100 = real h / 100"
    unfolding ip fp by (simp add: field_simps)
  have digits: "list_all isdigit (ip @ fp)"
    unfolding ip_def fp_def using lt by (simp add: isdigit_digits_of digit_char)
  have shape: "print_f2 n 1024 = (if n < 0 then ''-'' else []) @ ip @ ''.'' @ fp"
    by (simp add: print_f2_def Let_def h_def ip_def fp_def)
  have len: "length fp = 2"
    by (simp add: fp_def)
  have near: "\<bar>real (decimal 0 ip) + real (decimal 0 fp) / 100 - \<bar>real_of_int n\<bar> / 1024\<bar> \<le> 1 / 200"
    unfolding val h_def by (rule hundredths_near)
  show ?thesis
    by (intro exI conjI) (rule shape len digits near)+
qed

lemma mb_text_2048: "mb_text 2048 = ''2.00''"
  by (simp add: mb_text_def print_f2_def hundredths_def long_to_double_def
      round_half_even_def bit_length.simps digits_of.simps char_of_eq_iff)

lemma mb_text_1536: "mb_text 1536 = ''1.50''"
  by (simp add: mb_text_def print_f2_def hundredths_def long_to_double_def
      round_half_even_def bit_length.simps digits_of.simps char_of_eq_iff)

text \<open>
  C7. \<open>display_memory\<close> prints nine lines: the heading and the four fields in
  kilobytes in the order virtual, RSS, data, stack, an empty line, the second heading,
  and \<open>vm_size\<close> and \<open>vm_rss\<close> divided by 1024.0 with two decimals. Each megabyte
  text is a sign, digits, a point and two digits, and the number it spells is within
  half a hundredth of the quotient of the converted double by 1024; the conversion to
  double is exact for a field below \<open>2 ^ 53\<close> in absolute value. 2048 is printed as
  2.00 and 1536 as 1.50.
\<close>

theorem display_memory_format:
  "display_memory mem =
     concat (map (\<lambda>l. l @ [NL])
       [''Memory Usage (KB):'',
        ''Virtual Size: '' @ print_int (vm_size mem),
        ''Physical RSS: '' @ print_int (vm_rss mem),
        ''Data Segment: '' @ print_int (vm_data mem),
        ''Stack Size: '' @ print_int (vm_stack mem),
        [],
        ''Memory Usage (MB):'',
        ''Virtual Size: '' @ mb_text (vm_size mem),
        ''Physical RSS: '' @ mb_text (vm_rss mem)])
   \<and> (\<forall>v. \<exists>ip fp. mb_text v = (if long_to_double v < 0 then ''-'' else []) @ ip @ ''.'' @ fp
          \<and> length fp = 2 \<and> list_all isdigit (ip @ fp)
          \<and> \<bar>real (decimal 0 ip) + real (decimal 0 fp) / 100
               - \<bar>real_of_int (long_to_double v)\<bar> / 1024\<bar> \<le> 1 / 200)
   \<and> (\<forall>v. \<bar>v\<bar> < 2 ^ 53 \<longrightarrow> long_to_double v = v)
   \<and> mb_text 2048 = ''2.00'' \<and> mb_text 1536 = ''1.50''"
proof (intro conjI allI impI)
  show "display_memory mem =
     concat (map (\<lambda>l. l @ [NL])
       [''Memory Usage (KB):'',
        ''Virtual Size: '' @ print_int (vm_size mem),
        ''Physical RSS: '' @ print_int (vm_rss mem),
        ''Data Segment: '' @ print_int (vm_data mem),
        ''Stack Size: '' @ print_int (vm_stack mem),
        [],
        ''Memory Usage (MB):'',
        ''Virtual Size: '' @ mb_text (vm_size mem),
        ''Physical RSS: '' @ mb_text (vm_rss mem)])"
    by (simp add: display_memory_def NL_def)
next
  fix v
  show "\<exists>ip fp. mb_text v = (if long_to_double v < 0 then ''-'' else []) @ ip @ ''.'' @ fp
          \<and> length fp = 2 \<and> list_all isdigit (ip @ fp)
          \<and> \<bar>real (decimal 0 ip) + real (decimal 0 fp) / 100
               - \<bar>real_of_int (long_to_double v)\<bar> / 1024\<bar> \<le> 1 / 200"
    unfolding mb_text_def by (rule print_f2_parts)
next
  fix v :: int
  assume "\<bar>v\<bar> < 2 ^ 53"
  then show "long_to_double v = v"
    by (rule long_to_double_exact)
next
  show "mb_text 2048 = ''2.00''"
    by (rule mb_text_2048)
next
  show "mb_text 1536 = ''1.50''"
    by (rule mb_text_1536)
qed

theorem display_memory_format_witness:
  "\<bar>50000 :: int\<bar> < 2 ^ 53 \<and> long_to_double 50000 = 50000
   \<and> (\<exists>ip fp. mb_text 50000 = ip @ ''.'' @ fp \<and> length fp = 2
        \<and> \<bar>real (decimal 0 ip) + real (decimal 0 fp) / 100 - 50000 / 1024\<bar> \<le> 1 / 200)"
proof -
  have small: "\<bar>50000 :: int\<bar> < 2 ^ 53"
    by simp
  note fmt = display_memory_format [of mem_zero]
  from fmt [THEN conjunct2, THEN conjunct2, THEN conjunct1, THEN spec, of 50000] small
  have e: "long_to_double 50000 = 50000"
    by (rule mp)
  from fmt [THEN conjunct2, THEN conjunct1, THEN spec, of 50000]
  obtain ip fp where "mb_text 50000 = (if long_to_double 50000 < 0 then ''-'' else []) @ ip @ ''.'' @ fp"
    and "length fp = 2"
    and "\<bar>real (decimal 0 ip) + real (decimal 0 fp) / 100
               - \<bar>real_of_int (long_to_double 50000)\<bar> / 1024\<bar> \<le> 1 / 200"
    by blast
  then have "mb_text 50000 = ip @ ''.'' @ fp \<and> length fp = 2
        \<and> \<bar>real (decimal 0 ip) + real (decimal 0 fp) / 100 - 50000 / 1024\<bar> \<le> 1 / 200"
    unfolding e by simp
  then have "\<exists>ip fp. mb_text 50000 = ip @ ''.'' @ fp \<and> length fp = 2
        \<and> \<bar>real (decimal 0 ip) + real (decimal 0 fp) / 100 - 50000 / 1024\<bar> \<le> 1 / 200"
    by (intro exI)
  with small e show ?thesis
    by (intro conjI)
qed

text \<open>
  C3. When the locator and the reader return, \<open>main\<close> returns too. Its exit status is
  1 when \<open>get_node_pid\<close> returned \<open>- 1\<close> or the record read has \<open>vm_size = 0\<close>, and it
  has then printed a diagnostic last; in every other case the status is 0 and the
  output ends with the display of the record.
\<close>

theorem main_exit_status:
  assumes "get_node_pid sys = Inr pid"
    and "pid \<noteq> - 1 \<Longrightarrow> get_memory_usage sys pid = Inr mem"
  shows "\<exists>out. main sys = Inr (out, if pid = - 1 \<or> vm_size mem = 0 then 1 else 0)
    \<and> (if pid = - 1 then out = ''No Node.js process found\<newline>''
       else if vm_size mem = 0 then suffix ''Failed to read memory information\<newline>'' out
       else suffix (display_memory mem) out)"
proof (cases "pid = - 1")
  case True
  with assms(1) show ?thesis
    by (simp add: main_def)
next
  case False
  with assms have "get_memory_usage sys pid = Inr mem"
    by simp
  with assms(1) False show ?thesis
    by (simp add: main_def Let_def suffix_def)
qed

lemma sys_node_mem:
  "get_memory_usage sys_node 42 =
     Inr \<lparr>vm_size = 50000, vm_rss = 20000, vm_data = 10000, vm_stack = 132\<rparr>"
  by (simp add: sys_node_def get_memory_usage_def status_path_def print_int_def
      digits_of.simps char_of_eq_iff read_status.simps mem_zero_def
      fgets_def NL_def NUL_def cstr_def process_line_def sscanf_s_ld_kB_def isspace_def
      scan_sign_def isdigit_def signed_value_def digit_value_def LONG_MIN_def LONG_MAX_def)

lemma sys_node_pid: "get_node_pid sys_node = Inr 42"
  by (simp add: sys_node_def get_node_pid_def strspn_def strlen_def cmdline_path_def
      fgets_def NL_def NUL_def cstr_def prefix_code atoi_def isspace_def scan_sign_def
      isdigit_def signed_value_def digit_value_def INT_MIN_def INT_MAX_def)

theorem main_exit_status_witness:
  "get_node_pid sys_node = Inr 42
   \<and> get_memory_usage sys_node 42 =
       Inr \<lparr>vm_size = 50000, vm_rss = 20000, vm_data = 10000, vm_stack = 132\<rparr>
   \<and> (\<exists>out. main sys_node = Inr (out, 0)
        \<and> suffix (display_memory
             \<lparr>vm_size = 50000, vm_rss = 20000, vm_data = 10000, vm_stack = 132\<rparr>) out)"
  using main_exit_status [OF sys_node_pid, of "\<lparr>vm_size = 50000, vm_rss = 20000, vm_data = 10000, vm_stack = 132\<rparr>"]
    sys_node_pid sys_node_mem
  by simp

end
